theory Spec2Isabelle
  imports Main "HOL-Library.Word" "HOL-Library.Monad_Syntax"
begin

unbundle bit_operations_syntax

section \<open>Data model (avi\_player.h)\<close>

type_synonym byte = "8 word"

text \<open>
  The player fills \<^verbatim>\<open>ChunkHeader\<close>, \<^verbatim>\<open>AVIMainHeader\<close>, \<^verbatim>\<open>AVIStreamHeader\<close> and
  \<^verbatim>\<open>BitmapInfoHeader\<close> by raw reads into the struct's memory
  (\<^verbatim>\<open>file.read(reinterpret_cast<char*>(&s), sizeof s)\<close>). Each of these structs is
  therefore kept as its packed memory image (a byte list), and every field the code uses
  is an accessor that decodes the little-endian bytes at the field's offset.
\<close>

definition le16 :: "byte list \<Rightarrow> 16 word" where
  "le16 bs = (case bs of
       [b0, b1] \<Rightarrow> ucast b0 OR push_bit 8 (ucast b1)
     | _ \<Rightarrow> 0)"

definition le32 :: "byte list \<Rightarrow> 32 word" where
  "le32 bs = (case bs of
       [b0, b1, b2, b3] \<Rightarrow>
          ucast b0 OR push_bit 8 (ucast b1) OR push_bit 16 (ucast b2) OR push_bit 24 (ucast b3)
     | _ \<Rightarrow> 0)"

definition le32_bytes :: "32 word \<Rightarrow> byte list" where
  "le32_bytes w = [ucast w, ucast (drop_bit 8 w), ucast (drop_bit 16 w), ucast (drop_bit 24 w)]"

definition field :: "nat \<Rightarrow> nat \<Rightarrow> byte list \<Rightarrow> byte list" where
  "field off n img = take n (drop off img)"

definition set_field :: "nat \<Rightarrow> byte list \<Rightarrow> byte list \<Rightarrow> byte list" where
  "set_field off v img = take off img @ v @ drop (off + length v) img"

text \<open>\<^verbatim>\<open>strncmp(a, "xxxx", 4) == 0\<close> on a four-character code without NUL bytes.\<close>

definition fourcc :: "string \<Rightarrow> byte list" where
  "fourcc s = map (\<lambda>c. of_nat (of_char c)) s"

definition tag_is :: "byte list \<Rightarrow> string \<Rightarrow> bool" where
  "tag_is a s = (take 4 a = fourcc s)"

text \<open>\<^verbatim>\<open>struct ChunkHeader { char fourCC[4]; uint32_t size; }\<close>, 8 bytes.\<close>

definition ChunkHeader_fourCC :: "byte list \<Rightarrow> byte list" where
  "ChunkHeader_fourCC c = field 0 4 c"

definition ChunkHeader_size :: "byte list \<Rightarrow> 32 word" where
  "ChunkHeader_size c = le32 (field 4 4 c)"

text \<open>\<^verbatim>\<open>struct RIFFHeader\<close>, 12 bytes.\<close>

definition RIFFHeader_signature :: "byte list \<Rightarrow> byte list" where
  "RIFFHeader_signature h = field 0 4 h"

definition RIFFHeader_format :: "byte list \<Rightarrow> byte list" where
  "RIFFHeader_format h = field 8 4 h"

text \<open>\<^verbatim>\<open>struct AVIMainHeader\<close>, 56 bytes: fourteen 32-bit fields.\<close>

definition AVIMainHeader_microSecPerFrame :: "byte list \<Rightarrow> 32 word" where
  "AVIMainHeader_microSecPerFrame h = le32 (field 0 4 h)"

definition AVIMainHeader_totalFrames :: "byte list \<Rightarrow> 32 word" where
  "AVIMainHeader_totalFrames h = le32 (field 16 4 h)"

definition AVIMainHeader_width :: "byte list \<Rightarrow> 32 word" where
  "AVIMainHeader_width h = le32 (field 32 4 h)"

definition AVIMainHeader_height :: "byte list \<Rightarrow> 32 word" where
  "AVIMainHeader_height h = le32 (field 36 4 h)"

text \<open>\<^verbatim>\<open>struct AVIStreamHeader\<close>, 56 bytes; only \<^verbatim>\<open>fccType\<close> is used.\<close>

definition AVIStreamHeader_fccType :: "byte list \<Rightarrow> byte list" where
  "AVIStreamHeader_fccType h = field 0 4 h"

text \<open>\<^verbatim>\<open>struct BitmapInfoHeader\<close>, 40 bytes.\<close>

definition BitmapInfoHeader_height :: "byte list \<Rightarrow> 32 word" where
  "BitmapInfoHeader_height h = le32 (field 8 4 h)"

definition BitmapInfoHeader_bitCount :: "byte list \<Rightarrow> 16 word" where
  "BitmapInfoHeader_bitCount h = le16 (field 14 2 h)"

definition BitmapInfoHeader_compression :: "byte list \<Rightarrow> 32 word" where
  "BitmapInfoHeader_compression h = le32 (field 16 4 h)"

definition sizeof_ChunkHeader :: nat where "sizeof_ChunkHeader = 8"
definition sizeof_RIFFHeader :: nat where "sizeof_RIFFHeader = 12"
definition sizeof_AVIMainHeader :: nat where "sizeof_AVIMainHeader = 56"
definition sizeof_AVIStreamHeader :: nat where "sizeof_AVIStreamHeader = 56"
definition sizeof_BitmapInfoHeader :: nat where "sizeof_BitmapInfoHeader = 40"
definition sizeof_RGBQuad :: nat where "sizeof_RGBQuad = 4"

record RGBQuad =
  blue :: byte
  green :: byte
  red :: byte
  reserved :: byte

datatype SDL_PixelFormatEnum =
  SDL_PIXELFORMAT_UNKNOWN | SDL_PIXELFORMAT_RGB24 | SDL_PIXELFORMAT_RGB565 | SDL_PIXELFORMAT_RGBA32

subsection \<open>The input stream\<close>

text \<open>
  \<^verbatim>\<open>std::ifstream\<close> opened in binary mode: the bytes of the file, the get position and
  the fail bit. The code never calls \<^verbatim>\<open>clear()\<close>, so a fail bit once set stays set;
  the end-of-file bit is only ever set together with the fail bit and is not kept apart.
\<close>

record ifstream =
  contents :: "byte list"
  gpos :: nat
  failbit :: bool

text \<open>
  \<^verbatim>\<open>file.read(buf, n)\<close>: on a failed stream nothing is read; when \<open>n\<close> bytes are
  available they are returned and the position advances; otherwise the bytes up to the end
  of the file are returned and the fail bit is set. The first component is what was stored
  at the start of \<^verbatim>\<open>buf\<close>.
\<close>

definition ifstream_read :: "nat \<Rightarrow> ifstream \<Rightarrow> byte list \<times> ifstream" where
  "ifstream_read n f =
     (if failbit f then ([], f)
      else if gpos f + n \<le> length (contents f)
      then (take n (drop (gpos f) (contents f)), f\<lparr>gpos := gpos f + n\<rparr>)
      else (drop (gpos f) (contents f),
            f\<lparr>gpos := max (gpos f) (length (contents f)), failbit := True\<rparr>))"

text \<open>
  \<^verbatim>\<open>file.seekg(off, std::ios::cur)\<close> with the non-negative offsets the code passes
  (they are converted from \<^verbatim>\<open>uint32_t\<close>): no effect on a failed stream; otherwise the
  position moves, also beyond the end of the file.
\<close>

definition seekg_cur :: "nat \<Rightarrow> ifstream \<Rightarrow> ifstream" where
  "seekg_cur off f = (if failbit f then f else f\<lparr>gpos := gpos f + off\<rparr>)"


text \<open>\<^verbatim>\<open>file.tellg()\<close>: \<open>-1\<close> on a failed stream.\<close>

definition tellg :: "ifstream \<Rightarrow> int" where
  "tellg f = (if failbit f then - 1 else int (gpos f))"

text \<open>A buffer whose first bytes were overwritten by a read; the rest keeps its old contents.\<close>

definition fill_buf :: "byte list \<Rightarrow> byte list \<Rightarrow> byte list" where
  "fill_buf got old = got @ drop (length got) old"

subsection \<open>The player object\<close>

text \<open>The SDL window, renderer and texture handles take no part in parsing or conversion.\<close>

record AVIPlayer =
  file_in :: ifstream
  mainHeader :: "byte list"
  streamHeader :: "byte list"
  bitmapHeader :: "byte list"
  frameWidth :: "32 word"
  frameHeight :: "32 word"
  fps :: "32 word"
  totalFrames :: "32 word"
  currentFrame :: "32 word"
  bitsPerPixel :: "32 word"
  bytesPerPixel :: "32 word"
  isTopDown :: bool
  frameOffsets :: "32 word list"
  frameSizes :: "32 word list"
  palette :: "RGBQuad list"
  sdlPixelFormat :: SDL_PixelFormatEnum
  isValid :: bool

section \<open>Frame conversion\<close>

text \<open>
  The conversion routines read \<^verbatim>\<open>frameData\<close> and write the locked texture memory through
  raw pointers. An access outside the buffer is undefined behaviour in the source; the
  model makes it the result \<open>None\<close>. Offsets that the source computes in
  \<^verbatim>\<open>uint32_t\<close> arithmetic wrap modulo \<open>2^32\<close>.
\<close>

definition u32 :: "nat \<Rightarrow> nat" where
  "u32 n = n mod 2 ^ 32"

definition rd :: "byte list \<Rightarrow> nat \<Rightarrow> byte option" where
  "rd buf i = (if i < length buf then Some (buf ! i) else None)"

definition wr :: "nat \<Rightarrow> byte \<Rightarrow> byte list \<Rightarrow> byte list option" where
  "wr i v buf = (if i < length buf then Some (buf[i := v]) else None)"

text \<open>\<^verbatim>\<open>for (uint32_t i = 0; i < n; ++i) body\<close>, stopping at the first faulting access.\<close>

fun for_each :: "nat list \<Rightarrow> (nat \<Rightarrow> 's \<Rightarrow> 's option) \<Rightarrow> 's \<Rightarrow> 's option" where
  "for_each [] body s = Some s"
| "for_each (i # is) body s =
     (case body i s of None \<Rightarrow> None | Some s' \<Rightarrow> for_each is body s')"

text \<open>
  \<^verbatim>\<open>srcY = isTopDown ? y : (frameHeight - 1 - y)\<close>; inside the row loop \<open>y < frameHeight\<close>,
  so the subtraction does not wrap.
\<close>

definition srcY_of :: "AVIPlayer \<Rightarrow> nat \<Rightarrow> nat" where
  "srcY_of p y = (if isTopDown p then y else unat (frameHeight p) - 1 - y)"

definition convert8BitToRGB24 :: "AVIPlayer \<Rightarrow> byte list \<Rightarrow> nat \<Rightarrow> byte list \<Rightarrow> byte list option" where
  "convert8BitToRGB24 p frameData pitch pixels =
     for_each [0..<unat (frameHeight p)] (\<lambda>y pixels.
       let srcY = srcY_of p y;
           dst = u32 (y * pitch);
           src = u32 (srcY * unat (frameWidth p))
       in for_each [0..<unat (frameWidth p)] (\<lambda>x pixels. do {
            paletteIndex \<leftarrow> rd frameData (src + x);
            if unat paletteIndex < length (palette p)
            then do {
              let color = palette p ! unat paletteIndex;
              pixels \<leftarrow> wr (dst + u32 (x * 3 + 0)) (red color) pixels;
              pixels \<leftarrow> wr (dst + u32 (x * 3 + 1)) (green color) pixels;
              wr (dst + u32 (x * 3 + 2)) (blue color) pixels }
            else do {
              pixels \<leftarrow> wr (dst + u32 (x * 3 + 2)) 0 pixels;
              pixels \<leftarrow> wr (dst + u32 (x * 3 + 1)) 0 pixels;
              wr (dst + u32 (x * 3 + 0)) 0 pixels }
          }) pixels) pixels"

text \<open>
  The 16-bit copy \<^verbatim>\<open>dst[x] = src[x]\<close> on \<^verbatim>\<open>uint16_t*\<close> moves the two bytes at byte
  offsets \<open>2x\<close> and \<open>2x + 1\<close>.
\<close>

definition convert16BitToRGB565 :: "AVIPlayer \<Rightarrow> byte list \<Rightarrow> nat \<Rightarrow> byte list \<Rightarrow> byte list option" where
  "convert16BitToRGB565 p frameData pitch pixels =
     for_each [0..<unat (frameHeight p)] (\<lambda>y pixels.
       let srcY = srcY_of p y;
           dst = u32 (y * pitch);
           src = u32 (srcY * unat (frameWidth p) * 2)
       in for_each [0..<unat (frameWidth p)] (\<lambda>x pixels. do {
            lo \<leftarrow> rd frameData (src + 2 * x);
            hi \<leftarrow> rd frameData (src + 2 * x + 1);
            pixels \<leftarrow> wr (dst + 2 * x) lo pixels;
            wr (dst + 2 * x + 1) hi pixels
          }) pixels) pixels"

definition convert24BitBGRToRGB :: "AVIPlayer \<Rightarrow> byte list \<Rightarrow> nat \<Rightarrow> byte list \<Rightarrow> byte list option" where
  "convert24BitBGRToRGB p frameData pitch pixels =
     for_each [0..<unat (frameHeight p)] (\<lambda>y pixels.
       let srcY = srcY_of p y;
           dst = u32 (y * pitch);
           src = u32 (srcY * unat (frameWidth p) * 3)
       in for_each [0..<unat (frameWidth p)] (\<lambda>x pixels. do {
            r \<leftarrow> rd frameData (src + u32 (x * 3 + 2));
            pixels \<leftarrow> wr (dst + u32 (x * 3 + 0)) r pixels;
            g \<leftarrow> rd frameData (src + u32 (x * 3 + 1));
            pixels \<leftarrow> wr (dst + u32 (x * 3 + 1)) g pixels;
            b \<leftarrow> rd frameData (src + u32 (x * 3 + 0));
            wr (dst + u32 (x * 3 + 2)) b pixels
          }) pixels) pixels"

definition convert32BitBGRAToRGBA :: "AVIPlayer \<Rightarrow> byte list \<Rightarrow> nat \<Rightarrow> byte list \<Rightarrow> byte list option" where
  "convert32BitBGRAToRGBA p frameData pitch pixels =
     for_each [0..<unat (frameHeight p)] (\<lambda>y pixels.
       let srcY = srcY_of p y;
           dst = u32 (y * pitch);
           src = u32 (srcY * unat (frameWidth p) * 4)
       in for_each [0..<unat (frameWidth p)] (\<lambda>x pixels. do {
            r \<leftarrow> rd frameData (src + u32 (x * 4 + 2));
            pixels \<leftarrow> wr (dst + u32 (x * 4 + 0)) r pixels;
            g \<leftarrow> rd frameData (src + u32 (x * 4 + 1));
            pixels \<leftarrow> wr (dst + u32 (x * 4 + 1)) g pixels;
            b \<leftarrow> rd frameData (src + u32 (x * 4 + 0));
            pixels \<leftarrow> wr (dst + u32 (x * 4 + 2)) b pixels;
            a \<leftarrow> rd frameData (src + u32 (x * 4 + 3));
            wr (dst + u32 (x * 4 + 3)) a pixels
          }) pixels) pixels"

definition convertAndCopyFrame :: "AVIPlayer \<Rightarrow> byte list \<Rightarrow> nat \<Rightarrow> byte list \<Rightarrow> byte list option" where
  "convertAndCopyFrame p frameData pitch pixels =
     (if bitsPerPixel p = 8 then convert8BitToRGB24 p frameData pitch pixels
      else if bitsPerPixel p = 16 then convert16BitToRGB565 p frameData pitch pixels
      else if bitsPerPixel p = 24 then convert24BitBGRToRGB p frameData pitch pixels
      else if bitsPerPixel p = 32 then convert32BitBGRAToRGBA p frameData pitch pixels
      else Some pixels)"

section \<open>Loading\<close>

text \<open>
  Memory the source reads before writing it: the constructor leaves the three header
  members uninitialised, and \<^verbatim>\<open>riffHeader\<close> and \<^verbatim>\<open>listType\<close> are uninitialised
  locals. A read that comes up short leaves the rest of such a buffer as it was, so their
  initial contents (the byte at each offset) are an input of the model.
\<close>

record indeterminate =
  mainHeader0 :: "nat \<Rightarrow> byte"
  streamHeader0 :: "nat \<Rightarrow> byte"
  bitmapHeader0 :: "nat \<Rightarrow> byte"
  riffHeader0 :: "nat \<Rightarrow> byte"
  listType0 :: "nat \<Rightarrow> byte"

text \<open>The \<open>n\<close> bytes of an uninitialised buffer.\<close>

definition uninit :: "(nat \<Rightarrow> byte) \<Rightarrow> nat \<Rightarrow> byte list" where
  "uninit m n = map m [0..<n]"

text \<open>The constructor's initialiser list.\<close>

definition AVIPlayer_new :: "indeterminate \<Rightarrow> AVIPlayer" where
  "AVIPlayer_new u =
     \<lparr>file_in = \<lparr>contents = [], gpos = 0, failbit = False\<rparr>,
      mainHeader = uninit (mainHeader0 u) sizeof_AVIMainHeader,
      streamHeader = uninit (streamHeader0 u) sizeof_AVIStreamHeader,
      bitmapHeader = uninit (bitmapHeader0 u) sizeof_BitmapInfoHeader,
      frameWidth = 0, frameHeight = 0, fps = 0, totalFrames = 0, currentFrame = 0,
      bitsPerPixel = 0, bytesPerPixel = 0, isTopDown = False,
      frameOffsets = [], frameSizes = [], palette = [],
      sdlPixelFormat = SDL_PIXELFORMAT_UNKNOWN, isValid = False\<rparr>"

subsection \<open>The palette vector\<close>

definition RGBQuad_zero :: RGBQuad where
  "RGBQuad_zero = \<lparr>blue = 0, green = 0, red = 0, reserved = 0\<rparr>"

definition RGBQuad_bytes :: "RGBQuad \<Rightarrow> byte list" where
  "RGBQuad_bytes q = [blue q, green q, red q, reserved q]"

fun quads_of :: "byte list \<Rightarrow> RGBQuad list" where
  "quads_of (b # g # r # x # rest) = \<lparr>blue = b, green = g, red = r, reserved = x\<rparr> # quads_of rest"
| "quads_of _ = []"

text \<open>\<^verbatim>\<open>palette.resize(n)\<close>: kept entries, then value-initialised ones.\<close>

definition resize :: "nat \<Rightarrow> RGBQuad list \<Rightarrow> RGBQuad list" where
  "resize n qs = take n qs @ replicate (n - length qs) RGBQuad_zero"

text \<open>
  \<^verbatim>\<open>file.read(reinterpret_cast<char*>(palette.data()), remainingBytes)\<close> into the resized
  vector. When \<^verbatim>\<open>remainingBytes\<close> is not a multiple of 4, the last one to three bytes
  are consumed from the file and fall outside the vector's \<open>4 * n\<close> bytes; they do not
  become palette entries.
\<close>

definition read_palette :: "byte list \<Rightarrow> RGBQuad list \<Rightarrow> RGBQuad list" where
  "read_palette got qs =
     quads_of (take (4 * length qs) (fill_buf got (concat (map RGBQuad_bytes qs))))"

subsection \<open>\<^verbatim>\<open>parseStreamList\<close>\<close>

definition parseStreamList_body :: "byte list \<Rightarrow> AVIPlayer \<Rightarrow> AVIPlayer" where
  "parseStreamList_body chunk p =
     (if tag_is (ChunkHeader_fourCC chunk) ''strh'' then
        (case ifstream_read sizeof_AVIStreamHeader (file_in p) of (got, f) \<Rightarrow>
           p\<lparr>streamHeader := fill_buf got (streamHeader p), file_in := f\<rparr>)
      else if tag_is (ChunkHeader_fourCC chunk) ''strf'' then
        (if tag_is (AVIStreamHeader_fccType (streamHeader p)) ''vids'' then
           (case ifstream_read sizeof_BitmapInfoHeader (file_in p) of (got, f) \<Rightarrow>
              let p = p\<lparr>bitmapHeader := fill_buf got (bitmapHeader p), file_in := f\<rparr>;
                  remainingBytes = ChunkHeader_size chunk - of_nat sizeof_BitmapInfoHeader
              in if 0 < remainingBytes \<and> BitmapInfoHeader_bitCount (bitmapHeader p) = 8 then
                   (let paletteEntries = remainingBytes div of_nat sizeof_RGBQuad
                    in case ifstream_read (unat remainingBytes) (file_in p) of (got, f) \<Rightarrow>
                         p\<lparr>palette := read_palette got (resize (unat paletteEntries) (palette p)),
                           file_in := f\<rparr>)
                 else if 0 < remainingBytes then
                   p\<lparr>file_in := seekg_cur (unat remainingBytes) (file_in p)\<rparr>
                 else p)
         else p\<lparr>file_in := seekg_cur (unat (ChunkHeader_size chunk)) (file_in p)\<rparr>)
      else p\<lparr>file_in := seekg_cur (unat (ChunkHeader_size chunk)) (file_in p)\<rparr>)"

text \<open>
  Every parsing loop reads an 8-byte chunk header per iteration and only ever moves the
  position forward, which bounds the number of iterations by the length of the file.
\<close>

definition advanced :: "ifstream \<Rightarrow> ifstream \<Rightarrow> bool" where
  "advanced f f' = (contents f' = contents f \<and> gpos f \<le> gpos f')"

definition remaining :: "ifstream \<Rightarrow> nat" where
  "remaining f = length (contents f) - gpos f"

lemma advanced_refl: "advanced f f"
  by (simp add: advanced_def)

lemma advanced_trans: "advanced f g \<Longrightarrow> advanced g h \<Longrightarrow> advanced f h"
  by (simp add: advanced_def)

lemma advanced_read: "advanced f (snd (ifstream_read n f))"
  by (simp add: advanced_def ifstream_read_def)

lemma advanced_seekg_cur: "advanced f (seekg_cur n f)"
  by (simp add: advanced_def seekg_cur_def)

lemma advanced_remaining: "advanced f f' \<Longrightarrow> remaining f' \<le> remaining f"
  by (auto simp: advanced_def remaining_def intro: diff_le_mono2)

lemma read_header_remaining:
  "ifstream_read sizeof_ChunkHeader f = (c, f') \<Longrightarrow> \<not> failbit f' \<Longrightarrow> remaining f' < remaining f"
  by (auto simp: ifstream_read_def remaining_def sizeof_ChunkHeader_def split: if_splits)

lemma advanced_after_read: "advanced f g \<Longrightarrow> advanced f (snd (ifstream_read n g))"
  by (rule advanced_trans[OF _ advanced_read])

lemma advanced_after_seekg_cur: "advanced f g \<Longrightarrow> advanced f (seekg_cur n g)"
  by (rule advanced_trans[OF _ advanced_seekg_cur])

lemma loop_step_decreases:
  "ifstream_read sizeof_ChunkHeader f = (chunk, f') \<Longrightarrow> \<not> failbit f' \<Longrightarrow> advanced f' g
   \<Longrightarrow> remaining g < remaining f"
  using advanced_remaining read_header_remaining by fastforce

lemma advanced_parseStreamList_body: "advanced (file_in p) (file_in (parseStreamList_body chunk p))"
  by (simp add: parseStreamList_body_def Let_def case_prod_beta
      advanced_refl advanced_after_read advanced_after_seekg_cur)

function parseStreamList_loop :: "32 word \<Rightarrow> 32 word \<Rightarrow> AVIPlayer \<Rightarrow> AVIPlayer" where
  "parseStreamList_loop sz bytesRead p =
     (if \<not> bytesRead < sz then p
      else case ifstream_read sizeof_ChunkHeader (file_in p) of (chunk, f) \<Rightarrow>
        if failbit f then p\<lparr>file_in := f\<rparr>
        else parseStreamList_loop sz
               (bytesRead + of_nat sizeof_ChunkHeader + ChunkHeader_size chunk)
               (parseStreamList_body chunk (p\<lparr>file_in := f\<rparr>)))"
  by pat_completeness auto
termination
proof (relation "measure (\<lambda>(sz, bytesRead, p). remaining (file_in p))", goal_cases)
  case 1
  show ?case by simp
next
  case (2 sz bytesRead p chunk f)
  have "advanced f (file_in (parseStreamList_body chunk (p\<lparr>file_in := f\<rparr>)))"
    using advanced_parseStreamList_body[of "p\<lparr>file_in := f\<rparr>" chunk] by simp
  with 2 show ?case
    by (auto intro: loop_step_decreases[OF sym])
qed

definition parseStreamList :: "32 word \<Rightarrow> AVIPlayer \<Rightarrow> AVIPlayer" where
  "parseStreamList sz p = parseStreamList_loop sz 0 p"

lemma advanced_parseStreamList_loop:
  "advanced (file_in p) (file_in (parseStreamList_loop sz bytesRead p))"
proof (induction sz bytesRead p rule: parseStreamList_loop.induct)
  case (1 sz bytesRead p)
  show ?case
  proof (cases "bytesRead < sz")
    case False
    then show ?thesis by (simp add: advanced_refl)
  next
    case True
    obtain chunk f where r: "ifstream_read sizeof_ChunkHeader (file_in p) = (chunk, f)"
      by (cases "ifstream_read sizeof_ChunkHeader (file_in p)")
    have a: "advanced (file_in p) f"
      using advanced_read[of "file_in p" sizeof_ChunkHeader] r by simp
    show ?thesis
    proof (cases "failbit f")
      case True
      with \<open>bytesRead < sz\<close> r a show ?thesis by simp
    next
      case False
      have "advanced f (file_in (parseStreamList_body chunk (p\<lparr>file_in := f\<rparr>)))"
        using advanced_parseStreamList_body[of "p\<lparr>file_in := f\<rparr>" chunk] by simp
      with a False \<open>bytesRead < sz\<close> r "1.IH"[OF _ r[symmetric]] show ?thesis
        by (auto intro: advanced_trans)
    qed
  qed
qed

subsection \<open>\<^verbatim>\<open>parseHeaderList\<close>\<close>

text \<open>The body returns \<^verbatim>\<open>bytesRead\<close> as well, which the \<^verbatim>\<open>LIST\<close> branch advances by 4.\<close>

definition parseHeaderList_body ::
  "indeterminate \<Rightarrow> byte list \<Rightarrow> 32 word \<Rightarrow> AVIPlayer \<Rightarrow> 32 word \<times> AVIPlayer" where
  "parseHeaderList_body u chunk bytesRead p =
     (if tag_is (ChunkHeader_fourCC chunk) ''avih'' then
        (case ifstream_read sizeof_AVIMainHeader (file_in p) of (got, f) \<Rightarrow>
           (bytesRead, p\<lparr>mainHeader := fill_buf got (mainHeader p), file_in := f\<rparr>))
      else if tag_is (ChunkHeader_fourCC chunk) ''LIST'' then
        (case ifstream_read 4 (file_in p) of (got, f) \<Rightarrow>
           let listType = fill_buf got (uninit (listType0 u) 4);
               bytesRead = bytesRead + 4;
               p = p\<lparr>file_in := f\<rparr>
           in if tag_is listType ''strl'' then
                (bytesRead, parseStreamList (ChunkHeader_size chunk - 4) p)
              else
                (bytesRead, p\<lparr>file_in := seekg_cur (unat (ChunkHeader_size chunk - 4)) (file_in p)\<rparr>))
      else (bytesRead, p\<lparr>file_in := seekg_cur (unat (ChunkHeader_size chunk)) (file_in p)\<rparr>))"

lemma advanced_parseHeaderList_body:
  "advanced (file_in p) (file_in (snd (parseHeaderList_body u chunk bytesRead p)))"
  by (simp add: parseHeaderList_body_def Let_def case_prod_beta parseStreamList_def
      advanced_refl advanced_read advanced_seekg_cur advanced_after_seekg_cur
      advanced_trans[OF advanced_read advanced_parseStreamList_loop[of "p\<lparr>file_in := f\<rparr>" for p f, simplified]])

function parseHeaderList_loop ::
  "indeterminate \<Rightarrow> 32 word \<Rightarrow> 32 word \<Rightarrow> AVIPlayer \<Rightarrow> AVIPlayer" where
  "parseHeaderList_loop u sz bytesRead p =
     (if \<not> bytesRead < sz then p
      else case ifstream_read sizeof_ChunkHeader (file_in p) of (chunk, f) \<Rightarrow>
        if failbit f then p\<lparr>file_in := f\<rparr>
        else case parseHeaderList_body u chunk (bytesRead + of_nat sizeof_ChunkHeader)
                    (p\<lparr>file_in := f\<rparr>) of
          (bytesRead, p) \<Rightarrow> parseHeaderList_loop u sz (bytesRead + ChunkHeader_size chunk) p)"
  by pat_completeness auto
termination
proof (relation "measure (\<lambda>(u, sz, bytesRead, p). remaining (file_in p))", goal_cases)
  case 1
  show ?case by simp
next
  case (2 u sz bytesRead p chunk f b q)
  have "advanced f (file_in (snd (parseHeaderList_body u chunk
          (bytesRead + of_nat sizeof_ChunkHeader) (p\<lparr>file_in := f\<rparr>))))"
    using advanced_parseHeaderList_body[of "p\<lparr>file_in := f\<rparr>"] by simp
  with 2 have "advanced f (file_in q)"
    by (metis snd_conv)
  with 2 show ?case
    by (auto intro: loop_step_decreases[OF sym])
qed

definition parseHeaderList :: "indeterminate \<Rightarrow> 32 word \<Rightarrow> AVIPlayer \<Rightarrow> AVIPlayer" where
  "parseHeaderList u sz p = parseHeaderList_loop u sz 0 p"

lemma advanced_parseHeaderList_loop:
  "advanced (file_in p) (file_in (parseHeaderList_loop u sz bytesRead p))"
proof (induction u sz bytesRead p rule: parseHeaderList_loop.induct)
  case (1 u sz bytesRead p)
  show ?case
  proof (cases "bytesRead < sz")
    case False
    then show ?thesis by (simp add: advanced_refl)
  next
    case True
    obtain chunk f where r: "ifstream_read sizeof_ChunkHeader (file_in p) = (chunk, f)"
      by (cases "ifstream_read sizeof_ChunkHeader (file_in p)")
    have a: "advanced (file_in p) f"
      using advanced_read[of "file_in p" sizeof_ChunkHeader] r by simp
    show ?thesis
    proof (cases "failbit f")
      case True
      with \<open>bytesRead < sz\<close> r a show ?thesis by simp
    next
      case False
      obtain b q where body: "parseHeaderList_body u chunk (bytesRead + of_nat sizeof_ChunkHeader)
          (p\<lparr>file_in := f\<rparr>) = (b, q)"
        by (cases "parseHeaderList_body u chunk (bytesRead + of_nat sizeof_ChunkHeader) (p\<lparr>file_in := f\<rparr>)")
      have "advanced f (file_in q)"
        using advanced_parseHeaderList_body[of "p\<lparr>file_in := f\<rparr>" u chunk
            "bytesRead + of_nat sizeof_ChunkHeader"] body by simp
      with a False \<open>bytesRead < sz\<close> r body "1.IH"[OF _ r[symmetric] _ body[symmetric]] show ?thesis
        by (auto intro: advanced_trans)
    qed
  qed
qed

subsection \<open>\<^verbatim>\<open>indexFrames\<close>\<close>

definition indexFrames_body :: "byte list \<Rightarrow> AVIPlayer \<Rightarrow> AVIPlayer" where
  "indexFrames_body chunk p =
     (let p = (if tag_is (ChunkHeader_fourCC chunk) ''00dc'' \<or> tag_is (ChunkHeader_fourCC chunk) ''00db''
               then p\<lparr>frameOffsets := frameOffsets p @ [word_of_int (tellg (file_in p))],
                      frameSizes := frameSizes p @ [ChunkHeader_size chunk]\<rparr>
               else p);
          skipSize = ChunkHeader_size chunk;
          skipSize = (if skipSize mod 2 = 1 then skipSize + 1 else skipSize)
      in p\<lparr>file_in := seekg_cur (unat skipSize) (file_in p)\<rparr>)"

lemma advanced_indexFrames_body: "advanced (file_in p) (file_in (indexFrames_body chunk p))"
  by (simp add: indexFrames_body_def Let_def advanced_seekg_cur)

text \<open>\<open>movieEnd\<close> is \<^verbatim>\<open>movieStart + static_cast<std::streampos>(movieSize)\<close>.\<close>

function indexFrames_loop :: "int \<Rightarrow> AVIPlayer \<Rightarrow> AVIPlayer" where
  "indexFrames_loop movieEnd p =
     (if \<not> tellg (file_in p) < movieEnd then p
      else case ifstream_read sizeof_ChunkHeader (file_in p) of (chunk, f) \<Rightarrow>
        if failbit f then p\<lparr>file_in := f\<rparr>
        else indexFrames_loop movieEnd (indexFrames_body chunk (p\<lparr>file_in := f\<rparr>)))"
  by pat_completeness auto
termination
proof (relation "measure (\<lambda>(movieEnd, p). remaining (file_in p))", goal_cases)
  case 1
  show ?case by simp
next
  case (2 movieEnd p chunk f)
  have "advanced f (file_in (indexFrames_body chunk (p\<lparr>file_in := f\<rparr>)))"
    using advanced_indexFrames_body[of "p\<lparr>file_in := f\<rparr>" chunk] by simp
  with 2 show ?case
    by (auto intro: loop_step_decreases[OF sym])
qed

definition indexFrames :: "32 word \<Rightarrow> AVIPlayer \<Rightarrow> AVIPlayer" where
  "indexFrames movieSize p =
     (let movieStart = tellg (file_in p)
      in indexFrames_loop (movieStart + uint movieSize) p)"

subsection \<open>\<^verbatim>\<open>parseAVIChunks\<close>\<close>

text \<open>
  The loop carries \<^verbatim>\<open>foundMainHeader\<close>; the \<^verbatim>\<open>movi\<close> branch leaves the loop
  (\<^verbatim>\<open>break\<close>).
\<close>

function parseAVIChunks_loop :: "indeterminate \<Rightarrow> bool \<Rightarrow> AVIPlayer \<Rightarrow> bool \<times> AVIPlayer" where
  "parseAVIChunks_loop u foundMainHeader p =
     (case ifstream_read sizeof_ChunkHeader (file_in p) of (chunk, f) \<Rightarrow>
        if failbit f then (foundMainHeader, p\<lparr>file_in := f\<rparr>)
        else if tag_is (ChunkHeader_fourCC chunk) ''LIST'' then
          (case ifstream_read 4 f of (got, f') \<Rightarrow>
             let listType = fill_buf got (uninit (listType0 u) 4)
             in if tag_is listType ''hdrl'' then
                  parseAVIChunks_loop u True
                    (parseHeaderList u (ChunkHeader_size chunk - 4) (p\<lparr>file_in := f'\<rparr>))
                else if tag_is listType ''movi'' then
                  (foundMainHeader, indexFrames (ChunkHeader_size chunk - 4) (p\<lparr>file_in := f'\<rparr>))
                else
                  parseAVIChunks_loop u foundMainHeader
                    (p\<lparr>file_in := seekg_cur (unat (ChunkHeader_size chunk - 4)) f'\<rparr>))
        else
          parseAVIChunks_loop u foundMainHeader
            (p\<lparr>file_in := seekg_cur (unat (ChunkHeader_size chunk)) f\<rparr>))"
  by pat_completeness auto
termination
proof (relation "measure (\<lambda>(u, foundMainHeader, p). remaining (file_in p))", goal_cases)
  case 1
  show ?case by simp
next
  case (2 u foundMainHeader p chunk f got f' listType)
  have "advanced f f'"
    using advanced_read[of f 4] 2 by (metis snd_conv)
  moreover have "advanced f' (file_in (parseHeaderList u (ChunkHeader_size chunk - 4) (p\<lparr>file_in := f'\<rparr>)))"
    using advanced_parseHeaderList_loop[of "p\<lparr>file_in := f'\<rparr>"] by (simp add: parseHeaderList_def)
  ultimately show ?case using 2
    by (auto intro: loop_step_decreases[OF sym] advanced_trans)
next
  case (3 u foundMainHeader p chunk f got f' listType)
  have "advanced f f'"
    using advanced_read[of f 4] 3 by (metis snd_conv)
  then show ?case using 3
    by (auto intro: loop_step_decreases[OF sym] advanced_after_seekg_cur)
next
  case (4 u foundMainHeader p chunk f)
  then show ?case
    by (auto intro: loop_step_decreases[OF sym] advanced_seekg_cur)
qed

definition parseAVIChunks :: "indeterminate \<Rightarrow> AVIPlayer \<Rightarrow> bool \<times> AVIPlayer" where
  "parseAVIChunks u p =
     (case parseAVIChunks_loop u False p of (foundMainHeader, p) \<Rightarrow>
        (foundMainHeader \<and> frameOffsets p \<noteq> [], p))"

subsection \<open>\<^verbatim>\<open>determinePixelFormat\<close> and \<^verbatim>\<open>loadAVI\<close>\<close>

definition determinePixelFormat :: "AVIPlayer \<Rightarrow> bool \<times> AVIPlayer" where
  "determinePixelFormat p =
     (let p = p\<lparr>bitsPerPixel := ucast (BitmapInfoHeader_bitCount (bitmapHeader p))\<rparr>;
          p = p\<lparr>bytesPerPixel := (bitsPerPixel p + 7) div 8\<rparr>
      in if BitmapInfoHeader_compression (bitmapHeader p) \<noteq> 0 then (False, p)
         else if bitsPerPixel p = 8 then (True, p\<lparr>sdlPixelFormat := SDL_PIXELFORMAT_RGB24\<rparr>)
         else if bitsPerPixel p = 16 then (True, p\<lparr>sdlPixelFormat := SDL_PIXELFORMAT_RGB565\<rparr>)
         else if bitsPerPixel p = 24 then (True, p\<lparr>sdlPixelFormat := SDL_PIXELFORMAT_RGB24\<rparr>)
         else if bitsPerPixel p = 32 then (True, p\<lparr>sdlPixelFormat := SDL_PIXELFORMAT_RGBA32\<rparr>)
         else (False, p))"

text \<open>
  The source reports every failure of \<^verbatim>\<open>loadAVI\<close> by a message on \<^verbatim>\<open>std::cerr\<close> and
  the result \<^verbatim>\<open>false\<close>; the four messages are the four errors.
\<close>

datatype load_error = CannotOpenFile | NotValidAVI | ParseFailed | UnsupportedPixelFormat

text \<open>
  The part of \<^verbatim>\<open>loadAVI\<close> after the chunks are parsed: frame rate, dimensions,
  orientation, pixel format.
\<close>

definition loadAVI_metadata :: "AVIPlayer \<Rightarrow> load_error + AVIPlayer" where
  "loadAVI_metadata p =
     (let p = (if 0 < AVIMainHeader_microSecPerFrame (mainHeader p)
               then p\<lparr>fps := 1000000 div AVIMainHeader_microSecPerFrame (mainHeader p)\<rparr>
               else p\<lparr>fps := 30\<rparr>);
          p = p\<lparr>frameWidth := AVIMainHeader_width (mainHeader p),
                frameHeight := AVIMainHeader_height (mainHeader p),
                totalFrames := AVIMainHeader_totalFrames (mainHeader p)\<rparr>;
          p = (if sint (BitmapInfoHeader_height (bitmapHeader p)) < 0
               then let p = p\<lparr>isTopDown := True\<rparr>;
                        p = p\<lparr>bitmapHeader := set_field 8
                               (le32_bytes (- BitmapInfoHeader_height (bitmapHeader p)))
                               (bitmapHeader p)\<rparr>
                    in p\<lparr>frameHeight := BitmapInfoHeader_height (bitmapHeader p)\<rparr>
               else p\<lparr>isTopDown := False\<rparr>)
      in case determinePixelFormat p of (ok, p) \<Rightarrow>
           if \<not> ok then Inl UnsupportedPixelFormat
           else Inr (p\<lparr>isValid := True\<rparr>))"

text \<open>\<open>opened\<close> is the content of the file at \<^verbatim>\<open>filepath\<close>, or \<open>None\<close> when it cannot be opened.\<close>

definition loadAVI :: "indeterminate \<Rightarrow> byte list option \<Rightarrow> AVIPlayer \<Rightarrow> load_error + AVIPlayer" where
  "loadAVI u opened p =
     (case opened of
        None \<Rightarrow> Inl CannotOpenFile
      | Some bytes \<Rightarrow>
          (case ifstream_read sizeof_RIFFHeader \<lparr>contents = bytes, gpos = 0, failbit = False\<rparr> of
             (got, f) \<Rightarrow>
               let riffHeader = fill_buf got (uninit (riffHeader0 u) sizeof_RIFFHeader);
                   p = p\<lparr>file_in := f\<rparr>
               in if \<not> tag_is (RIFFHeader_signature riffHeader) ''RIFF''
                     \<or> \<not> tag_is (RIFFHeader_format riffHeader) ''AVI ''
                  then Inl NotValidAVI
                  else case parseAVIChunks u p of (ok, p) \<Rightarrow>
                    if \<not> ok then Inl ParseFailed else loadAVI_metadata p))"

section \<open>Rendering a frame\<close>



section \<open>Well-formed files\<close>

text \<open>
  The RIFF layout of the inputs the claims speak about, as byte lists: a chunk is its
  four-byte tag, its payload length as a little-endian 32-bit value, the payload, and a
  pad byte when the length is odd; a list is a \<^verbatim>\<open>LIST\<close> chunk whose payload starts with the
  list type.
\<close>

definition chunk_header :: "byte list \<Rightarrow> 32 word \<Rightarrow> byte list" where
  "chunk_header tag sz = tag @ le32_bytes sz"

definition chunk :: "byte list \<Rightarrow> byte list \<Rightarrow> byte list" where
  "chunk tag payload =
     chunk_header tag (of_nat (length payload)) @ payload @
     (if odd (length payload) then [0] else [])"

definition list_header :: "32 word \<Rightarrow> string \<Rightarrow> byte list" where
  "list_header sz ty = chunk_header (fourcc ''LIST'') sz @ fourcc ty"

definition list_chunk :: "string \<Rightarrow> byte list \<Rightarrow> byte list" where
  "list_chunk ty body = list_header (of_nat (4 + length body)) ty @ body"

text \<open>A stream is its \<^verbatim>\<open>strh\<close> payload and its \<^verbatim>\<open>strf\<close> payload.\<close>

definition strl :: "byte list \<times> byte list \<Rightarrow> byte list" where
  "strl s = list_chunk ''strl'' (chunk (fourcc ''strh'') (fst s) @ chunk (fourcc ''strf'') (snd s))"

definition hdrl :: "byte list \<Rightarrow> (byte list \<times> byte list) list \<Rightarrow> byte list" where
  "hdrl mh streams = list_chunk ''hdrl'' (chunk (fourcc ''avih'') mh @ concat (map strl streams))"

text \<open>The chunks of the movie data are pairs of a tag and a payload.\<close>

definition movi_chunks :: "(byte list \<times> byte list) list \<Rightarrow> byte list" where
  "movi_chunks cs = concat (map (\<lambda>c. chunk (fst c) (snd c)) cs)"

definition riff_file :: "32 word \<Rightarrow> byte list \<Rightarrow> byte list" where
  "riff_file fileSize body = fourcc ''RIFF'' @ le32_bytes fileSize @ fourcc ''AVI '' @ body"

definition avi_file ::
  "byte list \<Rightarrow> (byte list \<times> byte list) list \<Rightarrow> (byte list \<times> byte list) list \<Rightarrow> byte list
   \<Rightarrow> byte list" where
  "avi_file mh streams movi rest =
     (let body = hdrl mh streams @ list_chunk ''movi'' (movi_chunks movi) @ rest
      in riff_file (of_nat (4 + length body)) body)"


definition is_video_frame :: "byte list \<times> byte list \<Rightarrow> bool" where
  "is_video_frame c = (fst c = fourcc ''00dc'' \<or> fst c = fourcc ''00db'')"

definition is_video_stream :: "byte list \<times> byte list \<Rightarrow> bool" where
  "is_video_stream s = (take 4 (fst s) = fourcc ''vids'')"

text \<open>
  The position of the first payload byte and the payload length of every video frame
  chunk, for chunks laid out from position \<open>pos\<close>.
\<close>

fun movi_index :: "nat \<Rightarrow> (byte list \<times> byte list) list \<Rightarrow> (nat \<times> nat) list" where
  "movi_index pos [] = []"
| "movi_index pos (c # cs) =
     (if is_video_frame c then [(pos + 8, length (snd c))] else []) @
     movi_index (pos + length (chunk (fst c) (snd c))) cs"

text \<open>
  The bounds under which a file is parsed as laid out. Chunk tags have four bytes and
  payload lengths fit the 32-bit length field with room for the pad byte. A stream header
  has the size of \<^verbatim>\<open>AVIStreamHeader\<close>; a stream format has an even length (the header
  lists are read without padding) and, for a video stream, at least the size of
  \<^verbatim>\<open>BitmapInfoHeader\<close>. \<^verbatim>\<open>parseHeaderList\<close> counts the four bytes of a list type
  twice, which stays without effect for up to 21 streams.
\<close>

definition chunks_ok :: "(byte list \<times> byte list) list \<Rightarrow> bool" where
  "chunks_ok cs = list_all (\<lambda>c. length (fst c) = 4 \<and> length (snd c) < 2 ^ 32 - 1) cs"


definition streams_ok :: "(byte list \<times> byte list) list \<Rightarrow> bool" where
  "streams_ok ss = list_all (\<lambda>s. length (fst s) = 56 \<and> even (length (snd s))
      \<and> (is_video_stream s \<longrightarrow> 40 \<le> length (snd s))) ss"


definition headers_ok :: "byte list \<Rightarrow> (byte list \<times> byte list) list \<Rightarrow> bool" where
  "headers_ok mh ss =
     (length mh = 56 \<and> streams_ok ss \<and> length ss \<le> 21 \<and> length (hdrl mh ss) + 84 < 2 ^ 32)"


text \<open>The last video stream of the header list, if there is one.\<close>

definition last_video :: "(byte list \<times> byte list) list \<Rightarrow> (byte list \<times> byte list) option" where
  "last_video ss =
     (if filter is_video_stream ss = [] then None else Some (last (filter is_video_stream ss)))"


section \<open>Sample inputs\<close>

text \<open>Header images with chosen field values, all other bytes zero.\<close>

definition le16_bytes :: "16 word \<Rightarrow> byte list" where
  "le16_bytes w = [ucast w, ucast (drop_bit 8 w)]"

definition avih_image :: "32 word \<Rightarrow> 32 word \<Rightarrow> 32 word \<Rightarrow> 32 word \<Rightarrow> byte list" where
  "avih_image usec frames w h =
     le32_bytes usec @ replicate 12 0 @ le32_bytes frames @ replicate 12 0 @
     le32_bytes w @ le32_bytes h @ replicate 16 0"

definition strh_image :: "string \<Rightarrow> byte list" where
  "strh_image ty = fourcc ty @ replicate 52 0"

definition bmih_image :: "32 word \<Rightarrow> 16 word \<Rightarrow> 32 word \<Rightarrow> byte list" where
  "bmih_image h bits compression =
     le32_bytes 40 @ le32_bytes 0 @ le32_bytes h @ le16_bytes 1 @ le16_bytes bits @
     le32_bytes compression @ replicate 20 0"

definition blank :: indeterminate where
  "blank = \<lparr>mainHeader0 = (\<lambda>i. 0), streamHeader0 = (\<lambda>i. 0), bitmapHeader0 = (\<lambda>i. 0),
             riffHeader0 = (\<lambda>i. 0), listType0 = (\<lambda>i. 0)\<rparr>"

text \<open>A loaded one-frame, one-pixel BGR24 container whose file is just the frame.\<close>

definition tiny_player :: AVIPlayer where
  "tiny_player = (AVIPlayer_new blank)
     \<lparr>file_in := \<lparr>contents = [0x10, 0x20, 0x30], gpos = 0, failbit = False\<rparr>,
      frameWidth := 1, frameHeight := 1, bitsPerPixel := 24, bytesPerPixel := 3,
      frameOffsets := [0], frameSizes := [3], isValid := True\<rparr>"

text \<open>A 2 x 1 indexed container with a palette of three entries.\<close>

definition palette_player :: AVIPlayer where
  "palette_player = (AVIPlayer_new blank)
     \<lparr>frameWidth := 2, frameHeight := 1, bitsPerPixel := 8, bytesPerPixel := 1,
      palette := [\<lparr>blue = 1, green = 2, red = 3, reserved = 0\<rparr>,
                  \<lparr>blue = 4, green = 5, red = 6, reserved = 0\<rparr>,
                  \<lparr>blue = 30, green = 20, red = 10, reserved = 0\<rparr>]\<rparr>"


text \<open>
  A 2 x 1 BGR24 file whose main header declares five frames while the movie data holds
  two video frame chunks and one audio chunk.
\<close>

definition lying_movi :: "(byte list \<times> byte list) list" where
  "lying_movi = [(fourcc ''00db'', [1, 2, 3, 4, 5, 6]), (fourcc ''01wb'', [7, 7, 7]),
                 (fourcc ''00dc'', [6, 5, 4, 3, 2, 1])]"

definition lying_file :: "byte list" where
  "lying_file = avi_file (avih_image 40000 5 2 1) [(strh_image ''vids'', bmih_image 1 24 0)]
     lying_movi []"





section \<open>Auxiliary definitions for the proofs\<close>

text \<open>
  The pixel body of \<^verbatim>\<open>convert8BitToRGB24\<close> on its own, and the byte it stores at
  component \<open>k\<close> of a pixel.
\<close>

definition pal8 :: "RGBQuad list \<Rightarrow> byte \<Rightarrow> nat \<Rightarrow> byte" where
  "pal8 pal b k = (if unat b < length pal
      then [red (pal ! unat b), green (pal ! unat b), blue (pal ! unat b)] ! k else 0)"

definition px8 :: "RGBQuad list \<Rightarrow> byte list \<Rightarrow> nat \<Rightarrow> nat \<Rightarrow> nat \<Rightarrow> byte list \<Rightarrow> byte list option" where
  "px8 pal frameData src dst x pixels = do {
            paletteIndex \<leftarrow> rd frameData (src + x);
            if unat paletteIndex < length pal
            then do {
              let color = pal ! unat paletteIndex;
              pixels \<leftarrow> wr (dst + u32 (x * 3 + 0)) (red color) pixels;
              pixels \<leftarrow> wr (dst + u32 (x * 3 + 1)) (green color) pixels;
              wr (dst + u32 (x * 3 + 2)) (blue color) pixels }
            else do {
              pixels \<leftarrow> wr (dst + u32 (x * 3 + 2)) 0 pixels;
              pixels \<leftarrow> wr (dst + u32 (x * 3 + 1)) 0 pixels;
              wr (dst + u32 (x * 3 + 0)) 0 pixels }
          }"


text \<open>
  A good stream whose unread bytes are \<open>bs\<close>, and a stream moved forward by \<open>n\<close> bytes.
\<close>

definition unread :: "ifstream \<Rightarrow> byte list \<Rightarrow> bool" where
  "unread f bs = (\<not> failbit f \<and> gpos f \<le> length (contents f) \<and> drop (gpos f) (contents f) = bs)"

definition skip :: "nat \<Rightarrow> ifstream \<Rightarrow> ifstream" where
  "skip n f = f\<lparr>gpos := gpos f + n\<rparr>"


text \<open>
  What parsing one stream list leaves in the player: the stream header, and for a video
  stream the bitmap header and, when it is 8-bit and followed by palette bytes, the palette.
\<close>

definition after_stream :: "byte list \<times> byte list \<Rightarrow> AVIPlayer \<Rightarrow> AVIPlayer" where
  "after_stream s p =
     (if is_video_stream s
      then p\<lparr>streamHeader := fst s,
             bitmapHeader := take 40 (snd s),
             palette := (if 40 < length (snd s) \<and> BitmapInfoHeader_bitCount (take 40 (snd s)) = 8
                         then quads_of (drop 40 (snd s)) else palette p)\<rparr>
      else p\<lparr>streamHeader := fst s\<rparr>)"


text \<open>
  The player after the header list of a well-formed file, positioned behind the header of
  the \<^verbatim>\<open>movi\<close> list, and after the movie data has been indexed.
\<close>

definition headers_state ::
  "indeterminate \<Rightarrow> byte list \<Rightarrow> byte list \<Rightarrow> (byte list \<times> byte list) list \<Rightarrow> AVIPlayer" where
  "headers_state u bytes mh ss =
     (fold after_stream ss ((AVIPlayer_new u)\<lparr>mainHeader := mh\<rparr>))
       \<lparr>file_in := \<lparr>contents = bytes, gpos = 24 + length (hdrl mh ss), failbit = False\<rparr>\<rparr>"


definition indexed_state ::
  "indeterminate \<Rightarrow> byte list \<Rightarrow> byte list \<Rightarrow> (byte list \<times> byte list) list
   \<Rightarrow> (byte list \<times> byte list) list \<Rightarrow> AVIPlayer" where
  "indexed_state u bytes mh ss cs =
     (headers_state u bytes mh ss)
       \<lparr>frameOffsets := map (\<lambda>e. of_nat (fst e)) (movi_index (24 + length (hdrl mh ss)) cs),
        frameSizes := map (\<lambda>e. of_nat (snd e)) (movi_index (24 + length (hdrl mh ss)) cs),
        file_in := skip (length (movi_chunks cs)) (file_in (headers_state u bytes mh ss))\<rparr>"


section \<open>Lemmas: loops and offsets\<close>

lemma for_each_append:
  "for_each (xs @ ys) body s = (case for_each xs body s of None \<Rightarrow> None | Some s' \<Rightarrow> for_each ys body s')"
  by (induction xs arbitrary: s) (auto split: option.splits)

lemma for_each_cong:
  "(\<And>i s. i \<in> set xs \<Longrightarrow> f i s = g i s) \<Longrightarrow> for_each xs f s = for_each xs g s"
  by (induction xs arbitrary: s) (auto split: option.splits)

lemma for_each_upt_Suc:
  "for_each [0..<Suc n] body s = (case for_each [0..<n] body s of None \<Rightarrow> None | Some s' \<Rightarrow> body n s')"
  by (simp add: for_each_append split: option.splits)

lemma u32_id: "n < 2 ^ 32 \<Longrightarrow> u32 n = n"
  by (simp add: u32_def)

lemma rd_take_eq:
  "take n a = take n b \<Longrightarrow> n \<le> length a \<Longrightarrow> n \<le> length b \<Longrightarrow> i < n \<Longrightarrow> rd a i = rd b i"
  by (metis (no_types, lifting) rd_def nth_take order_less_le_trans)

lemma pixel_index_bound:
  fixes sy w h x k c :: nat
  assumes "sy < h" "x < w" "k < c"
  shows "sy * w * c + (x * c + k) < h * w * c"
proof -
  have "x * c + k < w * c"
  proof -
    have "x * c + k < x * c + c" using assms by simp
    also have "\<dots> = (Suc x) * c" by simp
    also have "\<dots> \<le> w * c" using assms by (intro mult_le_mono1) simp
    finally show ?thesis .
  qed
  then have "sy * w * c + (x * c + k) < sy * w * c + w * c" by simp
  also have "\<dots> = (Suc sy) * (w * c)" by (simp add: algebra_simps)
  also have "\<dots> \<le> h * (w * c)" using assms by (intro mult_le_mono1) simp
  finally show ?thesis by (simp add: mult.assoc)
qed

lemma srcY_of_less: "y < unat (frameHeight p) \<Longrightarrow> srcY_of p y < unat (frameHeight p)"
  by (simp add: srcY_of_def)

lemma src_offset_exact:
  fixes sy w h x k c :: nat
  assumes "sy < h" "x < w" "k < c" "h * w * c < 2 ^ 32"
  shows "u32 (sy * w * c) = sy * w * c" and "u32 (x * c + k) = x * c + k"
    and "sy * w * c + (x * c + k) < h * w * c"
proof -
  show b: "sy * w * c + (x * c + k) < h * w * c"
    using assms by (intro pixel_index_bound)
  then have "sy * w * c < 2 ^ 32" "x * c + k < 2 ^ 32" using assms(4) by linarith+
  then show "u32 (sy * w * c) = sy * w * c" "u32 (x * c + k) = x * c + k"
    by (simp_all add: u32_id)
qed

lemma rd_prefix:
  fixes sy w h x k c :: nat
  assumes "take (h * w * c) a = take (h * w * c) b" "h * w * c \<le> length a" "h * w * c \<le> length b"
    and "h * w * c < 2 ^ 32" "sy < h" "x < w" "k < c"
  shows "rd a (u32 (sy * w * c) + u32 (x * c + k)) = rd b (u32 (sy * w * c) + u32 (x * c + k))"
    and "rd a (u32 (sy * w * c) + (x * c + k)) = rd b (u32 (sy * w * c) + (x * c + k))"
  using assms src_offset_exact[of sy h x w k c] by (auto intro: rd_take_eq)

lemma convert24_prefix:
  assumes "take n a = take n b" "n \<le> length a" "n \<le> length b" "n < 2 ^ 32"
    and "n = unat (frameHeight p) * unat (frameWidth p) * 3"
  shows "convert24BitBGRToRGB p a pitch px = convert24BitBGRToRGB p b pitch px"
  unfolding convert24BitBGRToRGB_def Let_def
proof (intro for_each_cong, goal_cases)
  case (1 y s x s')
  then have y: "srcY_of p y < unat (frameHeight p)" and x: "x < unat (frameWidth p)"
    by (simp_all add: srcY_of_less)
  have r: "rd a (u32 (srcY_of p y * unat (frameWidth p) * 3) + u32 (x * 3 + k))
         = rd b (u32 (srcY_of p y * unat (frameWidth p) * 3) + u32 (x * 3 + k))" if "k < 3" for k
    using assms y x that by (intro rd_prefix[where h = "unat (frameHeight p)"]) simp_all
  show ?case using r[of 0] r[of 1] r[of 2] by simp
qed

lemma convert32_prefix:
  assumes "take n a = take n b" "n \<le> length a" "n \<le> length b" "n < 2 ^ 32"
    and "n = unat (frameHeight p) * unat (frameWidth p) * 4"
  shows "convert32BitBGRAToRGBA p a pitch px = convert32BitBGRAToRGBA p b pitch px"
  unfolding convert32BitBGRAToRGBA_def Let_def
proof (intro for_each_cong, goal_cases)
  case (1 y s x s')
  then have y: "srcY_of p y < unat (frameHeight p)" and x: "x < unat (frameWidth p)"
    by (simp_all add: srcY_of_less)
  have r: "rd a (u32 (srcY_of p y * unat (frameWidth p) * 4) + u32 (x * 4 + k))
         = rd b (u32 (srcY_of p y * unat (frameWidth p) * 4) + u32 (x * 4 + k))" if "k < 4" for k
    using assms y x that by (intro rd_prefix[where h = "unat (frameHeight p)"]) simp_all
  show ?case using r[of 0] r[of 1] r[of 2] r[of 3] by simp
qed

lemma convert16_prefix:
  assumes "take n a = take n b" "n \<le> length a" "n \<le> length b" "n < 2 ^ 32"
    and "n = unat (frameHeight p) * unat (frameWidth p) * 2"
  shows "convert16BitToRGB565 p a pitch px = convert16BitToRGB565 p b pitch px"
  unfolding convert16BitToRGB565_def Let_def
proof (intro for_each_cong, goal_cases)
  case (1 y s x s')
  then have y: "srcY_of p y < unat (frameHeight p)" and x: "x < unat (frameWidth p)"
    by (simp_all add: srcY_of_less)
  have r: "rd a (u32 (srcY_of p y * unat (frameWidth p) * 2) + (x * 2 + k))
         = rd b (u32 (srcY_of p y * unat (frameWidth p) * 2) + (x * 2 + k))" if "k < 2" for k
    using assms y x that by (intro rd_prefix[where h = "unat (frameHeight p)"]) simp_all
  show ?case using r[of 0] r[of 1] by (simp add: mult.commute)
qed

lemma convert8_prefix:
  assumes "take n a = take n b" "n \<le> length a" "n \<le> length b" "n < 2 ^ 32"
    and "n = unat (frameHeight p) * unat (frameWidth p) * 1"
  shows "convert8BitToRGB24 p a pitch px = convert8BitToRGB24 p b pitch px"
  unfolding convert8BitToRGB24_def Let_def
proof (intro for_each_cong, goal_cases)
  case (1 y s x s')
  then have y: "srcY_of p y < unat (frameHeight p)" and x: "x < unat (frameWidth p)"
    by (simp_all add: srcY_of_less)
  have r: "rd a (u32 (srcY_of p y * unat (frameWidth p) * 1) + (x * 1 + 0))
         = rd b (u32 (srcY_of p y * unat (frameWidth p) * 1) + (x * 1 + 0))"
    using assms y x by (intro rd_prefix[where h = "unat (frameHeight p)"]) simp_all
  show ?case using r by simp
qed

lemma bytesPerPixel_values:
  "((8::32 word) + 7) div 8 = 1" "((16::32 word) + 7) div 8 = 2"
  "((24::32 word) + 7) div 8 = 3" "((32::32 word) + 7) div 8 = 4"
  by simp_all


section \<open>Lemmas: row order\<close>









section \<open>Lemmas: header fields and metadata\<close>

lemma le32_roundtrip: "le32 (le32_bytes w) = w"
  unfolding le32_def le32_bytes_def
  apply simp
  apply (rule bit_word_eqI)
  subgoal for n
    apply (cases "n < 8"; cases "n < 16"; cases "n < 24")
    apply (auto simp: bit_simps)
    done
  done

lemma length_le32_bytes: "length (le32_bytes w) = 4"
  by (simp add: le32_bytes_def)

lemma le32_nonzero_length: "le32 bs \<noteq> 0 \<Longrightarrow> length bs = 4"
  by (auto simp: le32_def split: list.splits)

lemma field_set_field_same:
  "off + length v \<le> length img \<Longrightarrow> field off (length v) (set_field off v img) = v"
  by (simp add: field_def set_field_def)

lemma field_set_field_after:
  "off + length v \<le> off' \<Longrightarrow> off + length v \<le> length img \<Longrightarrow>
   field off' n (set_field off v img) = field off' n img"
  by (simp add: field_def set_field_def)

lemma height_field_length:
  assumes "sint (BitmapInfoHeader_height img) < 0"
  shows "12 \<le> length img"
proof -
  have "le32 (field 8 4 img) \<noteq> 0"
    using assms by (auto simp: BitmapInfoHeader_height_def)
  then have "length (field 8 4 img) = 4" by (rule le32_nonzero_length)
  then show ?thesis by (simp add: field_def)
qed

lemma set_height_accessors:
  assumes "12 \<le> length img"
  shows "BitmapInfoHeader_height (set_field 8 (le32_bytes w) img) = w"
    and "BitmapInfoHeader_bitCount (set_field 8 (le32_bytes w) img) = BitmapInfoHeader_bitCount img"
    and "BitmapInfoHeader_compression (set_field 8 (le32_bytes w) img) = BitmapInfoHeader_compression img"
proof -
  have l: "8 + length (le32_bytes w) \<le> length img" using assms by (simp add: length_le32_bytes)
  show "BitmapInfoHeader_height (set_field 8 (le32_bytes w) img) = w"
    using field_set_field_same[OF l] by (simp add: BitmapInfoHeader_height_def length_le32_bytes le32_roundtrip)
  show "BitmapInfoHeader_bitCount (set_field 8 (le32_bytes w) img) = BitmapInfoHeader_bitCount img"
    using field_set_field_after[OF _ l, of 14 2] by (simp add: BitmapInfoHeader_bitCount_def length_le32_bytes)
  show "BitmapInfoHeader_compression (set_field 8 (le32_bytes w) img) = BitmapInfoHeader_compression img"
    using field_set_field_after[OF _ l, of 16 4] by (simp add: BitmapInfoHeader_compression_def length_le32_bytes)
qed

lemma determinePixelFormat_True:
  assumes "determinePixelFormat p = (True, p')"
  shows "bitsPerPixel p' = ucast (BitmapInfoHeader_bitCount (bitmapHeader p))"
    and "bitsPerPixel p' \<in> {8, 16, 24, 32}"
    and "bytesPerPixel p' = (bitsPerPixel p' + 7) div 8"
    and "BitmapInfoHeader_compression (bitmapHeader p) = 0"
    and "p' = p\<lparr>bitsPerPixel := bitsPerPixel p', bytesPerPixel := bytesPerPixel p',
                 sdlPixelFormat := sdlPixelFormat p'\<rparr>"
  using assms by (auto simp: determinePixelFormat_def Let_def split: if_splits)

lemma loadAVI_metadata_Inr:
  assumes "loadAVI_metadata q = Inr p"
  shows "fps p = (if 0 < AVIMainHeader_microSecPerFrame (mainHeader q)
                  then 1000000 div AVIMainHeader_microSecPerFrame (mainHeader q) else 30)"
    and "frameWidth p = AVIMainHeader_width (mainHeader q)"
    and "totalFrames p = AVIMainHeader_totalFrames (mainHeader q)"
    and "isTopDown p = (sint (BitmapInfoHeader_height (bitmapHeader q)) < 0)"
    and "frameHeight p = (if sint (BitmapInfoHeader_height (bitmapHeader q)) < 0
                          then - BitmapInfoHeader_height (bitmapHeader q)
                          else AVIMainHeader_height (mainHeader q))"
    and "bitsPerPixel p = ucast (BitmapInfoHeader_bitCount (bitmapHeader q))"
    and "bitsPerPixel p \<in> {8, 16, 24, 32}"
    and "bytesPerPixel p = (bitsPerPixel p + 7) div 8"
    and "mainHeader p = mainHeader q" and "palette p = palette q"
    and "frameOffsets p = frameOffsets q" and "frameSizes p = frameSizes q"
    and "file_in p = file_in q" and "isValid p"
proof -
  define q1 where "q1 = (if 0 < AVIMainHeader_microSecPerFrame (mainHeader q)
               then q\<lparr>fps := 1000000 div AVIMainHeader_microSecPerFrame (mainHeader q)\<rparr>
               else q\<lparr>fps := 30\<rparr>)"
  define q2 where "q2 = q1\<lparr>frameWidth := AVIMainHeader_width (mainHeader q1),
                frameHeight := AVIMainHeader_height (mainHeader q1),
                totalFrames := AVIMainHeader_totalFrames (mainHeader q1)\<rparr>"
  define q3 where "q3 = (if sint (BitmapInfoHeader_height (bitmapHeader q2)) < 0
               then let p = q2\<lparr>isTopDown := True\<rparr>;
                        p = p\<lparr>bitmapHeader := set_field 8
                               (le32_bytes (- BitmapInfoHeader_height (bitmapHeader p)))
                               (bitmapHeader p)\<rparr>
                    in p\<lparr>frameHeight := BitmapInfoHeader_height (bitmapHeader p)\<rparr>
               else q2\<lparr>isTopDown := False\<rparr>)"
  have m: "loadAVI_metadata q = (case determinePixelFormat q3 of (ok, p) \<Rightarrow>
           if \<not> ok then Inl UnsupportedPixelFormat else Inr (p\<lparr>isValid := True\<rparr>))"
    by (simp add: loadAVI_metadata_def q1_def q2_def q3_def Let_def)
  obtain ok p' where d: "determinePixelFormat q3 = (ok, p')"
    by (cases "determinePixelFormat q3")
  with m assms have ok: "ok" and p: "p = p'\<lparr>isValid := True\<rparr>"
    by (auto split: if_splits)
  note dp = determinePixelFormat_True[OF d[unfolded ok[THEN eqTrueI]]]
  have q1: "mainHeader q1 = mainHeader q" "bitmapHeader q1 = bitmapHeader q"
    by (simp_all add: q1_def)
  have bh: "BitmapInfoHeader_bitCount (bitmapHeader q3) = BitmapInfoHeader_bitCount (bitmapHeader q)"
    "BitmapInfoHeader_compression (bitmapHeader q3) = BitmapInfoHeader_compression (bitmapHeader q)"
    "frameHeight q3 = (if sint (BitmapInfoHeader_height (bitmapHeader q)) < 0
                          then - BitmapInfoHeader_height (bitmapHeader q)
                          else AVIMainHeader_height (mainHeader q))"
    using set_height_accessors[OF height_field_length, of "bitmapHeader q"]
    by (auto simp: q3_def q2_def q1 Let_def)
  have rest: "fps q3 = (if 0 < AVIMainHeader_microSecPerFrame (mainHeader q)
                  then 1000000 div AVIMainHeader_microSecPerFrame (mainHeader q) else 30)"
    "frameWidth q3 = AVIMainHeader_width (mainHeader q)"
    "totalFrames q3 = AVIMainHeader_totalFrames (mainHeader q)"
    "isTopDown q3 = (sint (BitmapInfoHeader_height (bitmapHeader q)) < 0)"
    "mainHeader q3 = mainHeader q" "palette q3 = palette q"
    "frameOffsets q3 = frameOffsets q" "frameSizes q3 = frameSizes q" "file_in q3 = file_in q"
    by (auto simp: q3_def q2_def q1_def Let_def)
  have p3: "p = q3\<lparr>bitsPerPixel := bitsPerPixel p', bytesPerPixel := bytesPerPixel p',
                 sdlPixelFormat := sdlPixelFormat p', isValid := True\<rparr>"
    using dp(5) p by simp
  show "fps p = (if 0 < AVIMainHeader_microSecPerFrame (mainHeader q)
                  then 1000000 div AVIMainHeader_microSecPerFrame (mainHeader q) else 30)"
    using rest(1) by (simp add: p3)
  show "frameWidth p = AVIMainHeader_width (mainHeader q)" using rest(2) by (simp add: p3)
  show "totalFrames p = AVIMainHeader_totalFrames (mainHeader q)" using rest(3) by (simp add: p3)
  show "isTopDown p = (sint (BitmapInfoHeader_height (bitmapHeader q)) < 0)" using rest(4) by (simp add: p3)
  show "frameHeight p = (if sint (BitmapInfoHeader_height (bitmapHeader q)) < 0
                          then - BitmapInfoHeader_height (bitmapHeader q)
                          else AVIMainHeader_height (mainHeader q))" using bh(3) by (simp add: p3)
  show "bitsPerPixel p = ucast (BitmapInfoHeader_bitCount (bitmapHeader q))"
    using dp(1) bh(1) by (simp add: p)
  show "bitsPerPixel p \<in> {8, 16, 24, 32}" using dp(2) by (simp add: p)
  show "bytesPerPixel p = (bitsPerPixel p + 7) div 8" using dp(3) by (simp add: p)
  show "mainHeader p = mainHeader q" using rest(5) by (simp add: p3)
  show "palette p = palette q" using rest(6) by (simp add: p3)
  show "frameOffsets p = frameOffsets q" using rest(7) by (simp add: p3)
  show "frameSizes p = frameSizes q" using rest(8) by (simp add: p3)
  show "file_in p = file_in q" using rest(9) by (simp add: p3)
  show "isValid p" by (simp add: p)
qed




lemma le16_roundtrip: "le16 (le16_bytes w) = w"
  unfolding le16_def le16_bytes_def
  apply simp
  apply (rule bit_word_eqI)
  subgoal for n
    apply (cases "n < 8")
    apply (auto simp: bit_simps)
    done
  done

lemma length_le16_bytes: "length (le16_bytes w) = 2"
  by (simp add: le16_bytes_def)

lemma avih_image_fields:
  "length (avih_image usec frames w h) = 56"
  "AVIMainHeader_microSecPerFrame (avih_image usec frames w h) = usec"
  "AVIMainHeader_totalFrames (avih_image usec frames w h) = frames"
  "AVIMainHeader_width (avih_image usec frames w h) = w"
  "AVIMainHeader_height (avih_image usec frames w h) = h"
  by (simp_all add: avih_image_def AVIMainHeader_microSecPerFrame_def AVIMainHeader_totalFrames_def
      AVIMainHeader_width_def AVIMainHeader_height_def field_def length_le32_bytes le32_roundtrip)

lemma bmih_image_fields:
  "length (bmih_image h bits compression) = 40"
  "BitmapInfoHeader_height (bmih_image h bits compression) = h"
  "BitmapInfoHeader_bitCount (bmih_image h bits compression) = bits"
  "BitmapInfoHeader_compression (bmih_image h bits compression) = compression"
  by (simp_all add: bmih_image_def BitmapInfoHeader_height_def BitmapInfoHeader_bitCount_def
      BitmapInfoHeader_compression_def field_def length_le32_bytes length_le16_bytes
      le32_roundtrip le16_roundtrip)

lemma loadAVI_metadata_succeeds:
  assumes "BitmapInfoHeader_compression (bitmapHeader q) = 0"
    and "BitmapInfoHeader_bitCount (bitmapHeader q) \<in> {8, 16, 24, 32}"
  shows "\<exists>p. loadAVI_metadata q = Inr p"
proof (cases "sint (BitmapInfoHeader_height (bitmapHeader q)) < 0")
  case True
  note f = set_height_accessors[OF height_field_length[OF True]]
  from assms True show ?thesis
    by (auto simp: loadAVI_metadata_def determinePixelFormat_def Let_def f)
next
  case False
  with assms show ?thesis
    by (auto simp: loadAVI_metadata_def determinePixelFormat_def Let_def)
qed

section \<open>Lemmas: indexed colour\<close>

lemma px8_step:
  assumes "src + x < length frameData" "dst + 3 * x + 2 < length s" "3 * x + 2 < 2 ^ 32"
  shows "px8 pal frameData src dst x s =
     Some (s[dst + 3 * x := pal8 pal (frameData ! (src + x)) 0,
             dst + 3 * x + 1 := pal8 pal (frameData ! (src + x)) 1,
             dst + 3 * x + 2 := pal8 pal (frameData ! (src + x)) 2])"
proof -
  have u: "dst + u32 (x * 3 + 0) = dst + 3 * x" "dst + u32 (x * 3 + 1) = dst + 3 * x + 1"
    "dst + u32 (x * 3 + 2) = dst + 3 * x + 2"
    using assms(3) by (simp_all add: u32_def mult.commute)
  have z: "s[dst + 3 * x + 2 := 0, dst + 3 * x + 1 := 0, dst + 3 * x := 0]
         = s[dst + 3 * x := 0, dst + 3 * x + 1 := 0, dst + 3 * x + 2 := (0::byte)]"
    by (simp add: list_update_swap)
  show ?thesis
    unfolding px8_def u
    using assms(1,2) z
    by (simp add: rd_def wr_def pal8_def Let_def)
qed

lemma row8:
  assumes "src + w \<le> length frameData" "dst + 3 * w \<le> length px" "3 * w < 2 ^ 32" "n \<le> w"
  shows "\<exists>px'. for_each [0..<n] (px8 pal frameData src dst) px = Some px'
      \<and> length px' = length px
      \<and> (\<forall>x<n. \<forall>k<3. px' ! (dst + 3 * x + k) = pal8 pal (frameData ! (src + x)) k)
      \<and> (\<forall>i. i < dst \<or> dst + 3 * n \<le> i \<longrightarrow> px' ! i = px ! i)"
  using assms(4)
proof (induction n)
  case 0
  then show ?case by simp
next
  case (Suc n)
  then obtain s where s: "for_each [0..<n] (px8 pal frameData src dst) px = Some s"
    "length s = length px"
    "\<forall>x<n. \<forall>k<3. s ! (dst + 3 * x + k) = pal8 pal (frameData ! (src + x)) k"
    "\<forall>i. i < dst \<or> dst + 3 * n \<le> i \<longrightarrow> s ! i = px ! i"
    by auto
  let ?v = "\<lambda>k. pal8 pal (frameData ! (src + n)) k"
  let ?s' = "s[dst + 3 * n := ?v 0, dst + 3 * n + 1 := ?v 1, dst + 3 * n + 2 := ?v 2]"
  have b: "src + n < length frameData" "dst + 3 * n + 2 < length s" "3 * n + 2 < 2 ^ 32"
    using Suc.prems assms s(2) by linarith+
  have step: "px8 pal frameData src dst n s = Some ?s'"
    by (rule px8_step[OF b])
  have run: "for_each [0..<Suc n] (px8 pal frameData src dst) px = Some ?s'"
    using s(1) step by (simp add: for_each_append)
  have old: "?s' ! (dst + 3 * x + k) = pal8 pal (frameData ! (src + x)) k" if "x < n" "k < 3" for x k
  proof -
    have "dst + 3 * x + k < dst + 3 * n" using that by linarith
    then have "?s' ! (dst + 3 * x + k) = s ! (dst + 3 * x + k)" by simp
    then show ?thesis using s(3) that by simp
  qed
  have new: "?s' ! (dst + 3 * n + k) = ?v k" if k: "k < 3" for k
  proof -
    have "k = 0 \<or> k = 1 \<or> k = 2" using k by linarith
    then show ?thesis using b(2) by auto
  qed
  have all: "?s' ! (dst + 3 * x + k) = pal8 pal (frameData ! (src + x)) k" if "x < Suc n" "k < 3" for x k
    using old[of x k] new[of k] that by (cases "x = n") auto
  have out: "?s' ! i = px ! i" if "i < dst \<or> dst + 3 * Suc n \<le> i" for i
  proof -
    have "?s' ! i = s ! i" using that by auto
    moreover have "i < dst \<or> dst + 3 * n \<le> i" using that by auto
    ultimately show ?thesis using s(4) by simp
  qed
  show ?case
    using run s(2) all out by (intro exI[of _ ?s']) (simp del: upt_Suc)
qed

lemma frame8:
  fixes h w pitch :: nat
  assumes fd: "h * w \<le> length frameData" "length frameData < 2 ^ 32"
    and pw: "3 * w \<le> pitch" and px: "h * pitch \<le> length px" "length px < 2 ^ 32"
    and sy: "\<And>y. y < h \<Longrightarrow> sy y < h"
    and m: "m \<le> h"
  shows "\<exists>out. for_each [0..<m]
            (\<lambda>y s. for_each [0..<w] (px8 pal frameData (u32 (sy y * w)) (u32 (y * pitch))) s) px = Some out
      \<and> length out = length px
      \<and> (\<forall>y<m. \<forall>x<w. \<forall>k<3. out ! (y * pitch + 3 * x + k) = pal8 pal (frameData ! (sy y * w + x)) k)
      \<and> (\<forall>i. m * pitch \<le> i \<longrightarrow> out ! i = px ! i)"
  using m
proof (induction m)
  case 0
  then show ?case by simp
next
  case (Suc m)
  let ?row = "\<lambda>y s. for_each [0..<w] (px8 pal frameData (u32 (sy y * w)) (u32 (y * pitch))) s"
  from Suc obtain s where s: "for_each [0..<m] ?row px = Some s" "length s = length px"
    "\<forall>y<m. \<forall>x<w. \<forall>k<3. s ! (y * pitch + 3 * x + k) = pal8 pal (frameData ! (sy y * w + x)) k"
    "\<forall>i. m * pitch \<le> i \<longrightarrow> s ! i = px ! i"
    by auto
  have mh: "m < h" using Suc.prems by simp
  have "Suc m * pitch \<le> h * pitch" using mh by (intro mult_le_mono1) simp
  then have dst_end: "m * pitch + pitch \<le> length px" using px(1) by simp
  then have dst32: "m * pitch < 2 ^ 32" using px(2) by linarith
  have "Suc (sy m) * w \<le> h * w" using sy[OF mh] by (intro mult_le_mono1) simp
  then have src_end: "sy m * w + w \<le> length frameData" using fd(1) by simp
  then have src32: "sy m * w < 2 ^ 32" using fd(2) by linarith
  have u: "u32 (sy m * w) = sy m * w" "u32 (m * pitch) = m * pitch"
    using src32 dst32 by (simp_all add: u32_id)
  have w32: "3 * w < 2 ^ 32" using pw dst_end px(2) by linarith
  have "m * pitch + 3 * w \<le> length s" using dst_end pw s(2) by linarith
  from row8[OF src_end this w32 le_refl, of pal]
  obtain s' where s': "for_each [0..<w] (px8 pal frameData (sy m * w) (m * pitch)) s = Some s'"
    "length s' = length s"
    "\<forall>x<w. \<forall>k<3. s' ! (m * pitch + 3 * x + k) = pal8 pal (frameData ! (sy m * w + x)) k"
    "\<forall>i. i < m * pitch \<or> m * pitch + 3 * w \<le> i \<longrightarrow> s' ! i = s ! i"
    by auto
  have run: "for_each [0..<Suc m] ?row px = Some s'"
    using s(1) s'(1) by (simp add: for_each_append u)
  have old: "s' ! (y * pitch + 3 * x + k) = pal8 pal (frameData ! (sy y * w + x)) k"
    if y: "y < m" and x: "x < w" and k: "k < 3" for y x k
  proof -
    have "Suc y * pitch \<le> m * pitch" using y by (intro mult_le_mono1) simp
    moreover have "3 * x + k < pitch" using x k pw by linarith
    ultimately have "y * pitch + 3 * x + k < m * pitch" by simp
    then have "s' ! (y * pitch + 3 * x + k) = s ! (y * pitch + 3 * x + k)" using s'(4) by simp
    then show ?thesis using s(3) y x k by simp
  qed
  have all: "s' ! (y * pitch + 3 * x + k) = pal8 pal (frameData ! (sy y * w + x)) k"
    if "y < Suc m" "x < w" "k < 3" for y x k
    using old[of y x k] s'(3) that by (cases "y = m") auto
  have out: "s' ! i = px ! i" if "Suc m * pitch \<le> i" for i
  proof -
    have "m * pitch + 3 * w \<le> i" using that pw by simp
    then have "s' ! i = s ! i" using s'(4) by simp
    moreover have "m * pitch \<le> i" using that by simp
    ultimately show ?thesis using s(4) by simp
  qed
  show ?case
    using run s(2) s'(2) all out by (intro exI[of _ s']) (simp del: upt_Suc)
qed

lemma convert8_as_px8:
  "convert8BitToRGB24 p frameData pitch pixels =
     for_each [0..<unat (frameHeight p)]
       (\<lambda>y s. for_each [0..<unat (frameWidth p)]
           (px8 (palette p) frameData (u32 (srcY_of p y * unat (frameWidth p))) (u32 (y * pitch))) s) pixels"
  unfolding convert8BitToRGB24_def Let_def px8_def by (rule refl)


section \<open>Lemmas: parsing a well-formed file\<close>

lemma unread_good: "unread f bs \<Longrightarrow> \<not> failbit f"
  by (simp add: unread_def)

lemma unread_length: "unread f bs \<Longrightarrow> gpos f + length bs = length (contents f)"
  by (auto simp: unread_def)

lemma read_unread:
  assumes "unread f (a @ b)" "length a = n"
  shows "ifstream_read n f = (a, skip n f)"
proof -
  have "gpos f + n \<le> length (contents f)" using unread_length[OF assms(1)] assms(2) by simp
  moreover have "take n (drop (gpos f) (contents f)) = a" using assms by (simp add: unread_def)
  ultimately show ?thesis using assms(1) by (simp add: ifstream_read_def unread_def skip_def)
qed

lemma unread_skip:
  assumes "unread f (a @ b)" "length a = n"
  shows "unread (skip n f) b"
proof -
  have "drop n (drop (gpos f) (contents f)) = b" using assms by (simp add: unread_def)
  then have "drop (gpos f + n) (contents f) = b" by (simp add: add.commute)
  then show ?thesis using assms(1) unread_length[OF assms(1)] assms(2)
    by (simp add: unread_def skip_def)
qed

lemma seekg_cur_good: "\<not> failbit f \<Longrightarrow> seekg_cur n f = skip n f"
  by (simp add: seekg_cur_def skip_def)

lemma skip_skip: "skip n (skip m f) = skip (m + n) f"
  by (simp add: skip_def add.assoc)

lemma skip_simps [simp]: "gpos (skip n f) = gpos f + n" "failbit (skip n f) = failbit f"
  "contents (skip n f) = contents f"
  by (simp_all add: skip_def)

lemma skip_0 [simp]: "skip 0 f = f"
  by (simp add: skip_def)

lemma length_fourcc [simp]: "length (fourcc s) = length s"
  by (simp add: fourcc_def)

declare length_le32_bytes [simp]

lemma length_chunk_header [simp]: "length (chunk_header tag sz) = length tag + 4"
  by (simp add: chunk_header_def)

lemma chunk_header_fields:
  assumes "length tag = 4"
  shows "ChunkHeader_fourCC (chunk_header tag sz) = tag"
    and "ChunkHeader_size (chunk_header tag sz) = sz"
  using assms
  by (simp_all add: ChunkHeader_fourCC_def ChunkHeader_size_def chunk_header_def field_def le32_roundtrip)

lemma tag_is_iff: "length tag = 4 \<Longrightarrow> tag_is tag s \<longleftrightarrow> tag = fourcc s"
  by (simp add: tag_is_def)

lemma length_chunk:
  "length (chunk tag payload) = length tag + 4 + length payload + length payload mod 2"
  by (simp add: chunk_def odd_iff_mod_2_eq_one)

text \<open>32-bit arithmetic on lengths below 2^32.\<close>

lemma unat_of_nat32: "n < 2 ^ 32 \<Longrightarrow> unat (of_nat n :: 32 word) = n"
  by (simp add: unat_of_nat)

lemma padded_skip:
  assumes "n < 2 ^ 32 - 1"
  shows "unat (if (of_nat n :: 32 word) mod 2 = 1 then of_nat n + 1 else (of_nat n :: 32 word))
       = n + n mod 2"
proof -
  have n: "unat (of_nat n :: 32 word) = n" using assms by (simp add: unat_of_nat)
  have "unat ((of_nat n :: 32 word) mod 2) = n mod 2"
    by (simp add: unat_mod n)
  then have m: "((of_nat n :: 32 word) mod 2 = 1) = (n mod 2 = 1)"
    by (metis unat_1 word_unat_eq_iff)
  have "unat (of_nat n + 1 :: 32 word) = n + 1"
    using assms by (metis Abs_fnat_hom_add of_nat_1 unat_of_nat32 add.commute less_diff_conv)
  then show ?thesis using n m by auto
qed

declare indexFrames_loop.simps [simp del] parseStreamList_loop.simps [simp del]
  parseHeaderList_loop.simps [simp del] parseAVIChunks_loop.simps [simp del]

lemma tellg_good: "\<not> failbit f \<Longrightarrow> tellg f = int (gpos f)"
  by (simp add: tellg_def)

lemma indexFrames_body_good:
  assumes "\<not> failbit (file_in p)" "length tag = 4" "n < 2 ^ 32 - 1"
  shows "indexFrames_body (chunk_header tag (of_nat n)) p =
     p\<lparr>frameOffsets := frameOffsets p @
          (if tag = fourcc ''00dc'' \<or> tag = fourcc ''00db'' then [of_nat (gpos (file_in p))] else []),
       frameSizes := frameSizes p @
          (if tag = fourcc ''00dc'' \<or> tag = fourcc ''00db'' then [of_nat n] else []),
       file_in := skip (n + n mod 2) (file_in p)\<rparr>"
  using assms padded_skip[OF assms(3)]
  by (simp add: indexFrames_body_def Let_def chunk_header_fields tag_is_iff tellg_good seekg_cur_good)

lemma indexFrames_loop_step:
  assumes u: "unread (file_in p) (chunk_header tag (of_nat n) @ rest)"
    and t: "length tag = 4" and n: "n < 2 ^ 32 - 1"
    and e: "int (gpos (file_in p)) < movieEnd"
  shows "indexFrames_loop movieEnd p = indexFrames_loop movieEnd
     (p\<lparr>frameOffsets := frameOffsets p @
          (if tag = fourcc ''00dc'' \<or> tag = fourcc ''00db''
           then [of_nat (gpos (file_in p) + 8)] else []),
       frameSizes := frameSizes p @
          (if tag = fourcc ''00dc'' \<or> tag = fourcc ''00db'' then [of_nat n] else []),
       file_in := skip (8 + n + n mod 2) (file_in p)\<rparr>)"
proof -
  have g: "\<not> failbit (file_in p)" using u by (rule unread_good)
  have r: "ifstream_read sizeof_ChunkHeader (file_in p)
         = (chunk_header tag (of_nat n), skip 8 (file_in p))"
    using read_unread[OF u, of 8] t by (simp add: sizeof_ChunkHeader_def)
  have b: "indexFrames_body (chunk_header tag (of_nat n)) (p\<lparr>file_in := skip 8 (file_in p)\<rparr>) =
     p\<lparr>frameOffsets := frameOffsets p @
          (if tag = fourcc ''00dc'' \<or> tag = fourcc ''00db''
           then [of_nat (gpos (file_in p) + 8)] else []),
       frameSizes := frameSizes p @
          (if tag = fourcc ''00dc'' \<or> tag = fourcc ''00db'' then [of_nat n] else []),
       file_in := skip (8 + n + n mod 2) (file_in p)\<rparr>"
    using indexFrames_body_good[of "p\<lparr>file_in := skip 8 (file_in p)\<rparr>" tag n] g t n
    by (simp add: skip_skip add.assoc)
  show ?thesis
    apply (subst indexFrames_loop.simps)
    using g e r b by (simp add: tellg_good)
qed

lemma indexFrames_loop_done:
  "\<not> failbit (file_in p) \<Longrightarrow> movieEnd \<le> int (gpos (file_in p)) \<Longrightarrow> indexFrames_loop movieEnd p = p"
  by (subst indexFrames_loop.simps) (simp add: tellg_good)

lemma indexFrames_loop_eof:
  assumes "unread (file_in p) bs" "length bs < 8"
  shows "frameOffsets (indexFrames_loop movieEnd p) = frameOffsets p"
    and "frameSizes (indexFrames_loop movieEnd p) = frameSizes p"
proof -
  have "gpos (file_in p) + 8 > length (contents (file_in p))"
    using unread_length[OF assms(1)] assms(2) by simp
  then have r: "failbit (snd (ifstream_read sizeof_ChunkHeader (file_in p)))"
    by (simp add: ifstream_read_def sizeof_ChunkHeader_def)
  show "frameOffsets (indexFrames_loop movieEnd p) = frameOffsets p"
    "frameSizes (indexFrames_loop movieEnd p) = frameSizes p"
    using r by (subst indexFrames_loop.simps; simp add: case_prod_beta)+
qed

lemma movi_chunks_Cons: "movi_chunks (c # cs) = chunk (fst c) (snd c) @ movi_chunks cs"
  by (simp add: movi_chunks_def)

lemma indexFrames_loop_chunks:
  assumes "unread (file_in p) (movi_chunks cs @ rest)" "chunks_ok cs"
    and "int (gpos (file_in p) + length (movi_chunks cs)) \<le> movieEnd"
  shows "indexFrames_loop movieEnd p = indexFrames_loop movieEnd
     (p\<lparr>frameOffsets := frameOffsets p @ map (\<lambda>e. of_nat (fst e)) (movi_index (gpos (file_in p)) cs),
       frameSizes := frameSizes p @ map (\<lambda>e. of_nat (snd e)) (movi_index (gpos (file_in p)) cs),
       file_in := skip (length (movi_chunks cs)) (file_in p)\<rparr>)"
  using assms
proof (induction cs arbitrary: p)
  case Nil
  then show ?case by (simp add: movi_chunks_def)
next
  case (Cons c cs)
  obtain tag d where c: "c = (tag, d)" by (cases c)
  let ?n = "length d"
  let ?len = "8 + ?n + ?n mod 2"
  have t: "length tag = 4" and n: "?n < 2 ^ 32 - 1" and ok: "chunks_ok cs"
    using Cons.prems(2) c by (simp_all add: chunks_ok_def)
  have lc: "length (chunk tag d) = ?len" using t by (simp add: length_chunk)
  have u: "unread (file_in p) (chunk tag d @ movi_chunks cs @ rest)"
    using Cons.prems(1) c by (simp add: movi_chunks_Cons)
  then have u1: "unread (file_in p)
      (chunk_header tag (of_nat ?n) @ d @ (if odd ?n then [0] else []) @ movi_chunks cs @ rest)"
    by (simp add: chunk_def)
  have e: "int (gpos (file_in p)) < movieEnd"
    using Cons.prems(3) c lc by (simp add: movi_chunks_Cons)
  let ?p' = "p\<lparr>frameOffsets := frameOffsets p @
          (if tag = fourcc ''00dc'' \<or> tag = fourcc ''00db''
           then [of_nat (gpos (file_in p) + 8)] else []),
       frameSizes := frameSizes p @
          (if tag = fourcc ''00dc'' \<or> tag = fourcc ''00db'' then [of_nat ?n] else []),
       file_in := skip ?len (file_in p)\<rparr>"
  have step: "indexFrames_loop movieEnd p = indexFrames_loop movieEnd ?p'"
    by (rule indexFrames_loop_step[OF u1 t n e])
  have u': "unread (file_in ?p') (movi_chunks cs @ rest)"
    using unread_skip[OF u lc] by simp
  have e': "int (gpos (file_in ?p') + length (movi_chunks cs)) \<le> movieEnd"
    using Cons.prems(3) c lc by (simp add: movi_chunks_Cons add.assoc)
  note ih = Cons.IH[OF u' ok e']
  have "?p'\<lparr>frameOffsets := frameOffsets ?p' @
            map (\<lambda>e. of_nat (fst e)) (movi_index (gpos (file_in ?p')) cs),
          frameSizes := frameSizes ?p' @
            map (\<lambda>e. of_nat (snd e)) (movi_index (gpos (file_in ?p')) cs),
          file_in := skip (length (movi_chunks cs)) (file_in ?p')\<rparr>
      = p\<lparr>frameOffsets := frameOffsets p @
            map (\<lambda>e. of_nat (fst e)) (movi_index (gpos (file_in p)) (c # cs)),
          frameSizes := frameSizes p @
            map (\<lambda>e. of_nat (snd e)) (movi_index (gpos (file_in p)) (c # cs)),
          file_in := skip (length (movi_chunks (c # cs))) (file_in p)\<rparr>"
    using lc by (simp add: c movi_chunks_Cons is_video_frame_def skip_skip add.assoc)
  then show ?case
    using step ih by simp
qed

lemma of_nat_less32:
  "a < 2 ^ 32 \<Longrightarrow> b < 2 ^ 32 \<Longrightarrow> ((of_nat a :: 32 word) < of_nat b) = (a < b)"
  by (simp add: word_less_nat_alt unat_of_nat32)

lemma of_nat_pos32: "a < 2 ^ 32 \<Longrightarrow> (0 < (of_nat a :: 32 word)) = (0 < a)"
  using of_nat_less32[of 0 a] by simp

lemma unat_of_nat_div32: "a < 2 ^ 32 \<Longrightarrow> unat ((of_nat a :: 32 word) div 4) = a div 4"
  by (simp add: unat_div unat_of_nat32)

lemma quads_of_take: "quads_of (take (4 * (length bs div 4)) bs) = quads_of bs"
proof (induction bs rule: quads_of.induct)
  case (1 b g r x rest)
  have "length (b # g # r # x # rest) div 4 = Suc (length rest div 4)" by simp
  then show ?case using 1 by (simp add: take_Cons')
qed simp_all

lemma length_palette_image: "length (concat (map RGBQuad_bytes qs)) = 4 * length qs"
  by (induction qs) (simp_all add: RGBQuad_bytes_def)

lemma length_resize: "length (resize n qs) = n"
  by (simp add: resize_def)

lemma read_palette_full: "read_palette got (resize (length got div 4) old) = quads_of got"
proof -
  let ?n = "length got div 4"
  have "4 * ?n \<le> length got" by simp
  then have "take (4 * ?n) (fill_buf got (concat (map RGBQuad_bytes (resize ?n old))))
      = take (4 * ?n) got"
    by (simp add: fill_buf_def)
  then show ?thesis
    by (simp add: read_palette_def length_resize quads_of_take)
qed

lemma fill_buf_full: "length old \<le> length got \<Longrightarrow> fill_buf got old = got"
  by (simp add: fill_buf_def)

lemma fourcc_distinct [simp]:
  "fourcc ''strf'' \<noteq> fourcc ''strh''" "fourcc ''LIST'' \<noteq> fourcc ''avih''"
  "fourcc ''avih'' \<noteq> fourcc ''LIST''" "fourcc ''strl'' \<noteq> fourcc ''hdrl''"
  "fourcc ''movi'' \<noteq> fourcc ''hdrl''" "fourcc ''movi'' \<noteq> fourcc ''strl''"
  "fourcc ''hdrl'' \<noteq> fourcc ''strl''"
  by (simp_all add: fourcc_def)

text \<open>The body on a stream header chunk.\<close>

lemma parseStreamList_body_strh:
  assumes u: "unread (file_in p) (sh @ rest)" and l: "length sh = 56" "length (streamHeader p) = 56"
  shows "parseStreamList_body (chunk_header (fourcc ''strh'') sz) p
       = p\<lparr>streamHeader := sh, file_in := skip 56 (file_in p)\<rparr>"
  using read_unread[OF u l(1)] l
  by (simp add: parseStreamList_body_def chunk_header_fields tag_is_iff sizeof_AVIStreamHeader_def
      fill_buf_full)

text \<open>The body on a stream format chunk.\<close>

lemma parseStreamList_body_strf:
  assumes u: "unread (file_in p) (sf @ rest)"
    and n: "length sf < 2 ^ 32"
    and b: "length (bitmapHeader p) = 40" and s: "length (streamHeader p) = 56"
    and v: "is_video_stream (streamHeader p, sf) \<longrightarrow> 40 \<le> length sf"
  shows "parseStreamList_body (chunk_header (fourcc ''strf'') (of_nat (length sf))) p
       = (after_stream (streamHeader p, sf) p)\<lparr>file_in := skip (length sf) (file_in p)\<rparr>"
proof (cases "is_video_stream (streamHeader p, sf)")
  case False
  then have "\<not> tag_is (AVIStreamHeader_fccType (streamHeader p)) ''vids''"
    by (simp add: is_video_stream_def tag_is_def AVIStreamHeader_fccType_def field_def)
  then show ?thesis
    using False unread_good[OF u] n
    by (simp add: parseStreamList_body_def chunk_header_fields tag_is_iff after_stream_def
        seekg_cur_good unat_of_nat32)
next
  case True
  then have vid: "tag_is (AVIStreamHeader_fccType (streamHeader p)) ''vids''"
    by (simp add: is_video_stream_def tag_is_def AVIStreamHeader_fccType_def field_def)
  have len: "40 \<le> length sf" using v True by simp
  let ?r = "length sf - 40"
  have sf: "sf = take 40 sf @ drop 40 sf" by simp
  have e: "take 40 sf @ drop 40 sf @ rest = sf @ rest" by (simp flip: append_assoc)
  have u1: "unread (file_in p) (take 40 sf @ drop 40 sf @ rest)" by (simp only: e u)
  have l40: "length (take 40 sf) = 40" using len by simp
  have r1: "ifstream_read sizeof_BitmapInfoHeader (file_in p) = (take 40 sf, skip 40 (file_in p))"
    using read_unread[OF u1 l40] by (simp add: sizeof_BitmapInfoHeader_def)
  have r1': "ifstream_read 40 (file_in p) = (take 40 sf, skip 40 (file_in p))"
    using read_unread[OF u1 l40] by simp
  have u2: "unread (skip 40 (file_in p)) (drop 40 sf @ rest)"
    by (rule unread_skip[OF u1 l40])
  have r2: "ifstream_read ?r (skip 40 (file_in p)) = (drop 40 sf, skip (length sf) (file_in p))"
    using read_unread[OF u2, of ?r] len by (simp add: skip_skip)
  have r32: "?r < 2 ^ 32" using n by simp
  have rem: "(of_nat (length sf) :: 32 word) - 40 = of_nat ?r"
    using len by simp
  have pos: "(0 < (of_nat (length sf) :: 32 word) - 40) = (40 < length sf)"
  proof -
    have "(0 < (of_nat ?r :: 32 word)) = (0 < ?r)" by (rule of_nat_pos32[OF r32])
    then have "(0 < (of_nat (length sf) :: 32 word) - 40) = (0 < ?r)" by (simp only: rem)
    then show ?thesis by (simp only: zero_less_diff)
  qed
  have un: "unat ((of_nat (length sf) :: 32 word) - 40) = ?r"
    by (simp only: rem unat_of_nat32[OF r32])
  have un4: "unat (((of_nat (length sf) :: 32 word) - 40) div 4) = length (drop 40 sf) div 4"
    by (simp only: rem unat_of_nat_div32[OF r32] length_drop)
  have fb: "fill_buf (take 40 sf) (bitmapHeader p) = take 40 sf"
    using b l40 by (simp add: fill_buf_full)
  have pal: "read_palette (drop 40 sf)
      (resize (unat (((of_nat (length sf) :: 32 word) - 40) div 4)) (palette p))
           = quads_of (drop 40 sf)"
    by (simp only: un4 read_palette_full)
  have body: "parseStreamList_body (chunk_header (fourcc ''strf'') (of_nat (length sf))) p =
     (let p = p\<lparr>bitmapHeader := take 40 sf, file_in := skip 40 (file_in p)\<rparr>;
          remainingBytes = (of_nat (length sf) :: 32 word) - 40
      in if 0 < remainingBytes \<and> BitmapInfoHeader_bitCount (bitmapHeader p) = 8 then
           (case ifstream_read (unat remainingBytes) (file_in p) of (got, f) \<Rightarrow>
              p\<lparr>palette := read_palette got (resize (unat (remainingBytes div 4)) (palette p)),
                file_in := f\<rparr>)
         else if 0 < remainingBytes then
           p\<lparr>file_in := seekg_cur (unat remainingBytes) (file_in p)\<rparr>
         else p)"
    using vid r1' fb
    by (simp add: parseStreamList_body_def chunk_header_fields tag_is_iff Let_def
        sizeof_BitmapInfoHeader_def sizeof_RGBQuad_def)
  have tgt: "after_stream (streamHeader p, sf) p
     = p\<lparr>bitmapHeader := take 40 sf,
         palette := (if 40 < length sf \<and> BitmapInfoHeader_bitCount (take 40 sf) = 8
                     then quads_of (drop 40 sf) else palette p)\<rparr>"
    using True by (simp add: after_stream_def)
  have g2: "\<not> failbit (skip 40 (file_in p))" by (rule unread_good[OF u2])
  have sk: "seekg_cur ?r (skip 40 (file_in p)) = skip (length sf) (file_in p)"
    using seekg_cur_good[OF g2, of ?r] len by (simp add: skip_skip)
  show ?thesis
  proof (cases "40 < length sf")
    case False
    then have "length sf = 40" using len by simp
    then show ?thesis unfolding body tgt Let_def pos by simp
  next
    case long: True
    show ?thesis
    proof (cases "BitmapInfoHeader_bitCount (take 40 sf) = 8")
      case True
      then show ?thesis unfolding body tgt Let_def pos un
        using long r2 by (simp add: pal)
    next
      case False
      then show ?thesis unfolding body tgt Let_def pos un
        using long sk by simp
    qed
  qed
qed

lemma parseStreamList_loop_step:
  assumes "bytesRead < sz" "ifstream_read sizeof_ChunkHeader (file_in p) = (hdr, f')" "\<not> failbit f'"
  shows "parseStreamList_loop sz bytesRead p =
     parseStreamList_loop sz (bytesRead + 8 + ChunkHeader_size hdr)
       (parseStreamList_body hdr (p\<lparr>file_in := f'\<rparr>))"
  using assms by (subst parseStreamList_loop.simps) (simp add: sizeof_ChunkHeader_def)

lemma parseStreamList_loop_done:
  "\<not> bytesRead < sz \<Longrightarrow> parseStreamList_loop sz bytesRead p = p"
  by (subst parseStreamList_loop.simps) simp

lemma read_chunk_header:
  assumes "unread f (chunk_header tag sz @ rest)" "length tag = 4"
  shows "ifstream_read sizeof_ChunkHeader f = (chunk_header tag sz, skip 8 f)"
    and "unread (skip 8 f) rest"
  using read_unread[OF assms(1), of 8] unread_skip[OF assms(1), of 8] assms(2)
  by (simp_all add: sizeof_ChunkHeader_def)

lemma chunk_even: "even (length d) \<Longrightarrow> chunk tag d = chunk_header tag (of_nat (length d)) @ d"
  by (simp add: chunk_def)

lemma after_stream_file [simp]:
  "after_stream s (p\<lparr>file_in := f\<rparr>) = (after_stream s p)\<lparr>file_in := f\<rparr>"
  "file_in (after_stream s p) = file_in p"
  by (simp_all add: after_stream_def)

lemma after_stream_streamHeader [simp]:
  "after_stream s (p\<lparr>streamHeader := x\<rparr>) = after_stream s p"
  by (simp add: after_stream_def)

lemma parseStreamList_stream:
  assumes u: "unread (file_in p) (chunk (fourcc ''strh'') sh @ chunk (fourcc ''strf'') sf @ rest)"
    and l: "length sh = 56" "length (streamHeader p) = 56" "length (bitmapHeader p) = 40"
    and n: "even (length sf)" "72 + length sf < 2 ^ 32"
    and v: "is_video_stream (sh, sf) \<longrightarrow> 40 \<le> length sf"
  shows "parseStreamList (of_nat (72 + length sf)) p
       = (after_stream (sh, sf) p)\<lparr>file_in := skip (72 + length sf) (file_in p)\<rparr>"
proof -
  let ?f = "file_in p" and ?n = "length sf" and ?sz = "of_nat (72 + length sf) :: 32 word"
  have u0: "unread ?f (chunk_header (fourcc ''strh'') 56 @ sh @ chunk (fourcc ''strf'') sf @ rest)"
    using u l(1) by (simp add: chunk_even)
  note h1 = read_chunk_header[OF u0, simplified]
  have c1: "(0 :: 32 word) < ?sz" using of_nat_pos32[of "72 + ?n"] n(2) by simp
  let ?p1 = "p\<lparr>streamHeader := sh, file_in := skip 64 ?f\<rparr>"
  have b1: "parseStreamList_body (chunk_header (fourcc ''strh'') 56) (p\<lparr>file_in := skip 8 ?f\<rparr>) = ?p1"
    using parseStreamList_body_strh[of "p\<lparr>file_in := skip 8 ?f\<rparr>" sh _ 56] h1(2) l
    by (simp add: skip_skip)
  have s1: "parseStreamList_loop ?sz 0 p = parseStreamList_loop ?sz 64 ?p1"
    using parseStreamList_loop_step[OF c1 h1(1)] unread_good[OF h1(2)] b1
    by (simp add: chunk_header_fields)
  have u1: "unread (skip 64 ?f) (chunk_header (fourcc ''strf'') (of_nat ?n) @ sf @ rest)"
    using unread_skip[OF h1(2) l(1)] n(1) by (simp add: chunk_even skip_skip)
  have h2: "ifstream_read sizeof_ChunkHeader (file_in ?p1)
          = (chunk_header (fourcc ''strf'') (of_nat ?n), skip 72 ?f)"
    "unread (skip 72 ?f) (sf @ rest)"
    using read_chunk_header[OF u1] by (simp_all add: skip_skip)
  have c2: "(64 :: 32 word) < ?sz" using of_nat_less32[of 64 "72 + ?n"] n(2) by simp
  let ?p2 = "(after_stream (sh, sf) p)\<lparr>file_in := skip (72 + ?n) ?f\<rparr>"
  have b2: "parseStreamList_body (chunk_header (fourcc ''strf'') (of_nat ?n)) (?p1\<lparr>file_in := skip 72 ?f\<rparr>) = ?p2"
    using parseStreamList_body_strf[of "?p1\<lparr>file_in := skip 72 ?f\<rparr>" sf rest] h2(2) l n v
    by (simp add: skip_skip)
  have s2: "parseStreamList_loop ?sz 64 ?p1 = parseStreamList_loop ?sz ?sz ?p2"
    using parseStreamList_loop_step[OF c2 h2(1)] unread_good[OF h2(2)] b2
    by (simp add: chunk_header_fields)
  show ?thesis
    unfolding parseStreamList_def s1 s2 by (simp add: parseStreamList_loop_done)
qed

lemma parseHeaderList_loop_step:
  assumes "bytesRead < sz" "ifstream_read sizeof_ChunkHeader (file_in p) = (hdr, f')" "\<not> failbit f'"
  shows "parseHeaderList_loop u sz bytesRead p =
     (case parseHeaderList_body u hdr (bytesRead + 8) (p\<lparr>file_in := f'\<rparr>) of
        (b, q) \<Rightarrow> parseHeaderList_loop u sz (b + ChunkHeader_size hdr) q)"
  using assms by (subst parseHeaderList_loop.simps) (simp add: sizeof_ChunkHeader_def)

lemma parseHeaderList_loop_done:
  "\<not> bytesRead < sz \<Longrightarrow> parseHeaderList_loop u sz bytesRead p = p"
  by (subst parseHeaderList_loop.simps) simp

lemma length_uninit [simp]: "length (uninit m n) = n"
  by (simp add: uninit_def)

lemma parseHeaderList_body_avih:
  assumes u: "unread (file_in p) (mh @ rest)" and l: "length mh = 56" "length (mainHeader p) = 56"
  shows "parseHeaderList_body u' (chunk_header (fourcc ''avih'') sz) b p
       = (b, p\<lparr>mainHeader := mh, file_in := skip 56 (file_in p)\<rparr>)"
  using read_unread[OF u l(1)] l
  by (simp add: parseHeaderList_body_def chunk_header_fields tag_is_iff sizeof_AVIMainHeader_def
      fill_buf_full)

lemma length_strl: "even (length (snd s)) \<Longrightarrow> length (fst s) = 56
    \<Longrightarrow> length (strl s) = 84 + length (snd s)"
  by (simp add: strl_def list_chunk_def list_header_def chunk_even)

lemma strl_layout:
  assumes "length sh = 56" "even (length sf)"
  shows "strl (sh, sf) = chunk_header (fourcc ''LIST'') (of_nat (76 + length sf)) @ fourcc ''strl'' @
      chunk (fourcc ''strh'') sh @ chunk (fourcc ''strf'') sf"
proof -
  have "4 + length (chunk (fourcc ''strh'') sh @ chunk (fourcc ''strf'') sf) = 76 + length sf"
    using assms by (simp add: chunk_even)
  then show ?thesis
    by (simp only: strl_def list_chunk_def list_header_def fst_conv snd_conv append_assoc)
qed

lemma parseHeaderList_body_strl:
  assumes u: "unread (file_in p)
      (fourcc ''strl'' @ chunk (fourcc ''strh'') sh @ chunk (fourcc ''strf'') sf @ rest)"
    and l: "length sh = 56" "length (streamHeader p) = 56" "length (bitmapHeader p) = 40"
    and n: "even (length sf)" "76 + length sf < 2 ^ 32"
    and v: "is_video_stream (sh, sf) \<longrightarrow> 40 \<le> length sf"
  shows "parseHeaderList_body u' (chunk_header (fourcc ''LIST'') (of_nat (76 + length sf))) b p
       = (b + 4, (after_stream (sh, sf) p)\<lparr>file_in := skip (76 + length sf) (file_in p)\<rparr>)"
proof -
  let ?f = "file_in p"
  have r: "ifstream_read 4 ?f = (fourcc ''strl'', skip 4 ?f)"
    using read_unread[OF u, of 4] by simp
  have u1: "unread (skip 4 ?f) (chunk (fourcc ''strh'') sh @ chunk (fourcc ''strf'') sf @ rest)"
    using unread_skip[OF u, of 4] by simp
  have sz: "(of_nat (76 + length sf) :: 32 word) - 4 = of_nat (72 + length sf)"
    by simp
  have ps: "parseStreamList (of_nat (72 + length sf)) (p\<lparr>file_in := skip 4 ?f\<rparr>)
      = (after_stream (sh, sf) p)\<lparr>file_in := skip (76 + length sf) ?f\<rparr>"
    using parseStreamList_stream[of "p\<lparr>file_in := skip 4 ?f\<rparr>" sh sf rest] u1 l n v
    by (simp add: skip_skip)
  show ?thesis
    unfolding parseHeaderList_body_def
    using r ps
    by (simp add: chunk_header_fields tag_is_iff fill_buf_full Let_def sz del: of_nat_add)
qed

lemma after_stream_lengths:
  assumes "length (fst s) = 56" "is_video_stream s \<longrightarrow> 40 \<le> length (snd s)"
    "length (streamHeader p) = 56" "length (bitmapHeader p) = 40"
  shows "length (streamHeader (after_stream s p)) = 56"
    and "length (bitmapHeader (after_stream s p)) = 40"
  using assms by (auto simp: after_stream_def)

lemma parseHeaderList_loop_streams:
  assumes "unread (file_in p) (concat (map strl ss) @ rest)" "streams_ok ss"
    and "length (streamHeader p) = 56" "length (bitmapHeader p) = 40"
    and "k + length (concat (map strl ss)) = L + 4 * i" "i + length ss \<le> 21" "L + 84 < 2 ^ 32"
  shows "parseHeaderList_loop u (of_nat L) (of_nat k) p
       = (fold after_stream ss p)\<lparr>file_in := skip (length (concat (map strl ss))) (file_in p)\<rparr>"
  using assms(1-6)
proof (induction ss arbitrary: p k i)
  case Nil
  then have "L \<le> k" "k < 2 ^ 32" using assms(7) by simp_all
  then have "\<not> (of_nat k :: 32 word) < of_nat L"
    using of_nat_less32[of k L] assms(7) by simp
  then show ?case by (simp add: parseHeaderList_loop_done)
next
  case (Cons s ss)
  obtain sh sf where s: "s = (sh, sf)" by (cases s)
  let ?n = "length sf" and ?f = "file_in p"
  let ?R = "length (concat (map strl ss))"
  have ok: "length sh = 56" "even ?n" "is_video_stream (sh, sf) \<longrightarrow> 40 \<le> ?n" "streams_ok ss"
    using Cons.prems(2) s by (simp_all add: streams_ok_def)
  have ls: "length (strl s) = 84 + ?n" using length_strl[of s] ok s by simp
  have kk: "k + (84 + ?n + ?R) = L + 4 * i" using Cons.prems(5) ls by simp
  have i: "i \<le> 20" using Cons.prems(6) by simp
  have kL: "k < L" using kk i by linarith
  have n32: "76 + ?n < 2 ^ 32" using kk i assms(7) by linarith
  have c: "(of_nat k :: 32 word) < of_nat L"
    using of_nat_less32[of k L] kL assms(7) by simp
  have u0: "unread ?f (chunk_header (fourcc ''LIST'') (of_nat (76 + ?n)) @ fourcc ''strl'' @
      chunk (fourcc ''strh'') sh @ chunk (fourcc ''strf'') sf @ concat (map strl ss) @ rest)"
    using Cons.prems(1) s by (simp add: strl_layout[OF ok(1,2)] del: of_nat_add)
  have l4: "length (fourcc ''LIST'') = 4" by simp
  note h = read_chunk_header[OF u0 l4]
  have g: "\<not> failbit (skip 8 ?f)" by (rule unread_good[OF h(2)])
  let ?q = "(after_stream s p)\<lparr>file_in := skip (84 + ?n) ?f\<rparr>"
  have b: "parseHeaderList_body u (chunk_header (fourcc ''LIST'') (of_nat (76 + ?n)))
             (of_nat k + 8) (p\<lparr>file_in := skip 8 ?f\<rparr>) = (of_nat k + 8 + 4, ?q)"
    using parseHeaderList_body_strl[of "p\<lparr>file_in := skip 8 ?f\<rparr>" sh sf _ u "of_nat k + 8"]
      h(2) ok Cons.prems(3,4) n32
    by (simp add: skip_skip s add.commute del: of_nat_add)
  have kw: "(of_nat k :: 32 word) + 8 + 4 + of_nat (76 + ?n) = of_nat (k + 88 + ?n)"
    by simp
  have step: "parseHeaderList_loop u (of_nat L) (of_nat k) p
      = parseHeaderList_loop u (of_nat L) (of_nat (k + 88 + ?n)) ?q"
    unfolding parseHeaderList_loop_step[OF c h(1) g, of u] chunk_header_fields(2)[OF l4] b
      prod.case kw ..
  have u': "unread (file_in ?q) (concat (map strl ss) @ rest)"
    using unread_skip[OF Cons.prems(1)[simplified], of "84 + ?n"] ls by simp
  have ih: "parseHeaderList_loop u (of_nat L) (of_nat (k + 88 + ?n)) ?q
      = (fold after_stream ss ?q)\<lparr>file_in := skip ?R (file_in ?q)\<rparr>"
  proof (rule Cons.IH[OF u' ok(4), where i = "Suc i"])
    show "length (streamHeader ?q) = 56" "length (bitmapHeader ?q) = 40"
      using after_stream_lengths[of s p] ok Cons.prems(3,4) s by simp_all
    show "k + 88 + ?n + ?R = L + 4 * Suc i" using kk by simp
    show "Suc i + length ss \<le> 21" using Cons.prems(6) by simp
  qed
  have ff: "fold after_stream ss (q\<lparr>file_in := g\<rparr>) = (fold after_stream ss q)\<lparr>file_in := g\<rparr>"
    for q g by (induction ss arbitrary: q) simp_all
  show ?case
    unfolding step ih using ls by (simp add: ff skip_skip)
qed

lemma fold_after_stream_file:
  "fold after_stream ss (q\<lparr>file_in := g\<rparr>) = (fold after_stream ss q)\<lparr>file_in := g\<rparr>"
  by (induction ss arbitrary: q) simp_all

lemma after_stream_other [simp]:
  "mainHeader (after_stream s p) = mainHeader p"
  "frameOffsets (after_stream s p) = frameOffsets p"
  "frameSizes (after_stream s p) = frameSizes p"
  by (simp_all add: after_stream_def)

lemma fold_after_stream_other [simp]:
  "mainHeader (fold after_stream ss p) = mainHeader p"
  "frameOffsets (fold after_stream ss p) = frameOffsets p"
  "frameSizes (fold after_stream ss p) = frameSizes p"
  "file_in (fold after_stream ss p) = file_in p"
  by (induction ss arbitrary: p) simp_all

lemma fold_after_stream_file_mainHeader:
  "fold after_stream ss (p\<lparr>file_in := g, mainHeader := mh\<rparr>)
      = (fold after_stream ss (p\<lparr>mainHeader := mh\<rparr>))\<lparr>file_in := g\<rparr>"
proof -
  have "p\<lparr>file_in := g, mainHeader := mh\<rparr> = p\<lparr>mainHeader := mh, file_in := g\<rparr>"
    by (cases p) simp
  then show ?thesis
    by (simp only: fold_after_stream_file)
qed

lemma length_hdrl_body:
  assumes "length mh = 56"
  shows "length (chunk (fourcc ''avih'') mh @ concat (map strl ss)) = 64 + length (concat (map strl ss))"
  using assms by (simp add: chunk_even)

lemma parseHeaderList_hdrl:
  assumes u: "unread (file_in p) (chunk (fourcc ''avih'') mh @ concat (map strl ss) @ rest)"
    and l: "length mh = 56" "length (mainHeader p) = 56" "length (streamHeader p) = 56"
      "length (bitmapHeader p) = 40"
    and ok: "streams_ok ss" "length ss \<le> 21"
    and L: "L = 64 + length (concat (map strl ss))" "L + 84 < 2 ^ 32"
  shows "parseHeaderList u' (of_nat L) p
       = (fold after_stream ss (p\<lparr>mainHeader := mh\<rparr>))\<lparr>file_in := skip L (file_in p)\<rparr>"
proof -
  let ?f = "file_in p"
  have u0: "unread ?f (chunk_header (fourcc ''avih'') 56 @ mh @ concat (map strl ss) @ rest)"
    using u l(1) by (simp add: chunk_even)
  have l4: "length (fourcc ''avih'') = 4" by simp
  note h = read_chunk_header[OF u0 l4]
  have g: "\<not> failbit (skip 8 ?f)" by (rule unread_good[OF h(2)])
  have c: "(0 :: 32 word) < of_nat L" using of_nat_pos32[of L] L by simp
  let ?p1 = "p\<lparr>mainHeader := mh, file_in := skip 64 ?f\<rparr>"
  have b: "parseHeaderList_body u' (chunk_header (fourcc ''avih'') 56) (0 + 8) (p\<lparr>file_in := skip 8 ?f\<rparr>)
      = (0 + 8, ?p1)"
    using parseHeaderList_body_avih[of "p\<lparr>file_in := skip 8 ?f\<rparr>" mh _ u' 56 "0 + 8"] h(2) l
    by (simp add: skip_skip)
  have kw: "(0 :: 32 word) + 8 + 56 = of_nat 64" by simp
  have step: "parseHeaderList_loop u' (of_nat L) 0 p = parseHeaderList_loop u' (of_nat L) (of_nat 64) ?p1"
    unfolding parseHeaderList_loop_step[OF c h(1) g, of u'] chunk_header_fields(2)[OF l4] b
      prod.case kw ..
  have u1: "unread (file_in ?p1) (concat (map strl ss) @ rest)"
    using unread_skip[OF h(2) l(1)] by (simp add: skip_skip)
  have rest: "parseHeaderList_loop u' (of_nat L) (of_nat 64) ?p1
      = (fold after_stream ss ?p1)\<lparr>file_in := skip (length (concat (map strl ss))) (file_in ?p1)\<rparr>"
    by (rule parseHeaderList_loop_streams[OF u1 ok(1), where i = 0]) (use l ok L in simp_all)
  show ?thesis
    unfolding parseHeaderList_def step rest
    using L(1) by (simp add: fold_after_stream_file skip_skip)
qed

lemma read_list_header:
  assumes u: "unread f (list_header sz ty @ rest)" and t: "length ty = 4"
  shows "ifstream_read sizeof_ChunkHeader f = (chunk_header (fourcc ''LIST'') sz, skip 8 f)"
    and "\<not> failbit (skip 8 f)"
    and "ifstream_read 4 (skip 8 f) = (fourcc ty, skip 12 f)"
    and "unread (skip 12 f) rest"
proof -
  have u0: "unread f (chunk_header (fourcc ''LIST'') sz @ fourcc ty @ rest)"
    using u by (simp add: list_header_def)
  have l4: "length (fourcc ''LIST'') = 4" by simp
  note h = read_chunk_header[OF u0 l4]
  show "ifstream_read sizeof_ChunkHeader f = (chunk_header (fourcc ''LIST'') sz, skip 8 f)"
    by (rule h(1))
  show "\<not> failbit (skip 8 f)" by (rule unread_good[OF h(2)])
  show "ifstream_read 4 (skip 8 f) = (fourcc ty, skip 12 f)"
    using read_unread[OF h(2), of 4] t by (simp add: skip_skip)
  show "unread (skip 12 f) rest"
    using unread_skip[OF h(2), of 4] t by (simp add: skip_skip)
qed

lemma parseAVIChunks_loop_hdrl:
  assumes u: "unread (file_in p) (list_header sz ''hdrl'' @ rest)"
  shows "parseAVIChunks_loop u' found p =
     parseAVIChunks_loop u' True (parseHeaderList u' (sz - 4) (p\<lparr>file_in := skip 12 (file_in p)\<rparr>))"
  apply (subst parseAVIChunks_loop.simps)
  using read_list_header[OF u]
  by (simp add: sizeof_ChunkHeader_def chunk_header_fields tag_is_iff fill_buf_full Let_def)

lemma parseAVIChunks_loop_movi:
  assumes u: "unread (file_in p) (list_header sz ''movi'' @ rest)"
  shows "parseAVIChunks_loop u' found p =
     (found, indexFrames (sz - 4) (p\<lparr>file_in := skip 12 (file_in p)\<rparr>))"
  apply (subst parseAVIChunks_loop.simps)
  using read_list_header[OF u]
  by (simp add: sizeof_ChunkHeader_def chunk_header_fields tag_is_iff fill_buf_full Let_def)

lemma length_hdrl:
  "length mh = 56 \<Longrightarrow> length (hdrl mh ss) = 76 + length (concat (map strl ss))"
  by (simp add: hdrl_def list_chunk_def list_header_def chunk_even)

text \<open>The header list as a whole.\<close>

lemma parseAVIChunks_loop_headers:
  assumes u: "unread (file_in p) (hdrl mh ss @ rest)"
    and l: "length mh = 56" "length (mainHeader p) = 56" "length (streamHeader p) = 56"
      "length (bitmapHeader p) = 40"
    and ok: "streams_ok ss" "length ss \<le> 21"
    and L: "length (hdrl mh ss) + 84 < 2 ^ 32"
  shows "parseAVIChunks_loop u' found p =
     parseAVIChunks_loop u' True
       ((fold after_stream ss (p\<lparr>mainHeader := mh\<rparr>))\<lparr>file_in := skip (length (hdrl mh ss)) (file_in p)\<rparr>)"
proof -
  let ?L = "64 + length (concat (map strl ss))"
  have hb: "length (chunk (fourcc ''avih'') mh @ concat (map strl ss)) = ?L"
    by (rule length_hdrl_body[OF l(1)])
  have lay: "hdrl mh ss = list_header (of_nat (4 + ?L)) ''hdrl'' @
      chunk (fourcc ''avih'') mh @ concat (map strl ss)"
    by (simp only: hdrl_def list_chunk_def hb)
  have u0: "unread (file_in p) (list_header (of_nat (4 + ?L)) ''hdrl'' @
      chunk (fourcc ''avih'') mh @ concat (map strl ss) @ rest)"
    using u by (simp only: lay append_assoc)
  have u1: "unread (skip 12 (file_in p)) (chunk (fourcc ''avih'') mh @ concat (map strl ss) @ rest)"
    using read_list_header(4)[OF u0] by simp
  have sz: "(of_nat (4 + ?L) :: 32 word) - 4 = of_nat ?L" by simp
  note sw = fold_after_stream_file_mainHeader
  have ph: "parseHeaderList u' (of_nat ?L) (p\<lparr>file_in := skip 12 (file_in p)\<rparr>)
      = (fold after_stream ss (p\<lparr>mainHeader := mh\<rparr>))\<lparr>file_in := skip (length (hdrl mh ss)) (file_in p)\<rparr>"
    using parseHeaderList_hdrl[of "p\<lparr>file_in := skip 12 (file_in p)\<rparr>" mh ss rest ?L u']
      u1 l ok L length_hdrl[OF l(1), of ss]
    by (simp add: skip_skip sw)
  show ?thesis
    unfolding parseAVIChunks_loop_hdrl[OF u0] sz ph ..
qed

lemma unread_start: "unread \<lparr>contents = bs, gpos = 0, failbit = False\<rparr> bs"
  by (simp add: unread_def)

lemma riff_header_fields:
  "RIFFHeader_signature (fourcc ''RIFF'' @ le32_bytes fs @ fourcc ''AVI '') = fourcc ''RIFF''"
  "RIFFHeader_format (fourcc ''RIFF'' @ le32_bytes fs @ fourcc ''AVI '') = fourcc ''AVI ''"
  by (simp_all add: RIFFHeader_signature_def RIFFHeader_format_def field_def)

lemma loadAVI_headers:
  assumes ok: "headers_ok mh ss"
    and bytes: "bytes = riff_file fs (hdrl mh ss @ list_header msz ''movi'' @ rest)"
  shows "loadAVI u (Some bytes) (AVIPlayer_new u) =
     (if frameOffsets (indexFrames (msz - 4) (headers_state u bytes mh ss)) = []
      then Inl ParseFailed
      else loadAVI_metadata (indexFrames (msz - 4) (headers_state u bytes mh ss)))"
    and "unread (file_in (headers_state u bytes mh ss)) rest"
proof -
  let ?f0 = "\<lparr>contents = bytes, gpos = 0, failbit = False\<rparr>"
  let ?rh = "fourcc ''RIFF'' @ le32_bytes fs @ fourcc ''AVI ''"
  let ?p0 = "AVIPlayer_new u"
  have l: "length mh = 56" "streams_ok ss" "length ss \<le> 21" "length (hdrl mh ss) + 84 < 2 ^ 32"
    using ok by (simp_all add: headers_ok_def)
  have u0: "unread ?f0 (?rh @ hdrl mh ss @ list_header msz ''movi'' @ rest)"
    using unread_start[of bytes] by (simp add: bytes riff_file_def)
  have r0: "ifstream_read sizeof_RIFFHeader ?f0 = (?rh, skip 12 ?f0)"
    using read_unread[OF u0, of 12] by (simp add: sizeof_RIFFHeader_def)
  have u1: "unread (skip 12 ?f0) (hdrl mh ss @ list_header msz ''movi'' @ rest)"
    using unread_skip[OF u0, of 12] by simp
  let ?p1 = "?p0\<lparr>file_in := skip 12 ?f0\<rparr>"
  have pl: "length (mainHeader ?p1) = 56" "length (streamHeader ?p1) = 56"
    "length (bitmapHeader ?p1) = 40"
    by (simp_all add: AVIPlayer_new_def sizeof_AVIMainHeader_def sizeof_AVIStreamHeader_def
        sizeof_BitmapInfoHeader_def)
  let ?p2 = "(fold after_stream ss (?p1\<lparr>mainHeader := mh\<rparr>))
      \<lparr>file_in := skip (length (hdrl mh ss)) (file_in ?p1)\<rparr>"
  have s1: "parseAVIChunks_loop u False ?p1 = parseAVIChunks_loop u True ?p2"
    by (rule parseAVIChunks_loop_headers[OF _ l(1) pl l(2,3,4)]) (use u1 in simp)
  have u2: "unread (file_in ?p2) (list_header msz ''movi'' @ rest)"
    using unread_skip[OF u1, of "length (hdrl mh ss)"] by simp
  have s2: "parseAVIChunks_loop u True ?p2
      = (True, indexFrames (msz - 4) (?p2\<lparr>file_in := skip 12 (file_in ?p2)\<rparr>))"
    by (rule parseAVIChunks_loop_movi[OF u2])
  have hs: "?p2\<lparr>file_in := skip 12 (file_in ?p2)\<rparr> = headers_state u bytes mh ss"
    by (simp add: headers_state_def fold_after_stream_file_mainHeader skip_def)
  show "unread (file_in (headers_state u bytes mh ss)) rest"
    using read_list_header(4)[OF u2] by (simp add: hs[symmetric])
  have pc: "parseAVIChunks u ?p1 =
     (frameOffsets (indexFrames (msz - 4) (headers_state u bytes mh ss)) \<noteq> [],
      indexFrames (msz - 4) (headers_state u bytes mh ss))"
    unfolding parseAVIChunks_def s1 s2 hs by simp
  show "loadAVI u (Some bytes) (AVIPlayer_new u) =
     (if frameOffsets (indexFrames (msz - 4) (headers_state u bytes mh ss)) = []
      then Inl ParseFailed
      else loadAVI_metadata (indexFrames (msz - 4) (headers_state u bytes mh ss)))"
    unfolding loadAVI_def
    using r0 pc
    by (simp add: Let_def fill_buf_full riff_header_fields tag_is_iff sizeof_RIFFHeader_def)
qed

lemma uint_of_nat32: "n < 2 ^ 32 \<Longrightarrow> uint (of_nat n :: 32 word) = int n"
  by (simp only: uint_nat unat_of_nat32)

lemma indexFrames_complete:
  assumes u: "unread (file_in p) (movi_chunks cs @ rest)" and ok: "chunks_ok cs"
    and M: "length (movi_chunks cs) < 2 ^ 32 - 4"
  shows "indexFrames (of_nat (4 + length (movi_chunks cs)) - 4) p =
     p\<lparr>frameOffsets := frameOffsets p @ map (\<lambda>e. of_nat (fst e)) (movi_index (gpos (file_in p)) cs),
       frameSizes := frameSizes p @ map (\<lambda>e. of_nat (snd e)) (movi_index (gpos (file_in p)) cs),
       file_in := skip (length (movi_chunks cs)) (file_in p)\<rparr>"
proof -
  let ?M = "length (movi_chunks cs)"
  have sz: "(of_nat (4 + ?M) :: 32 word) - 4 = of_nat ?M" by simp
  have ui: "uint (of_nat ?M :: 32 word) = int ?M" using M by (intro uint_of_nat32) simp
  have g: "\<not> failbit (file_in p)" by (rule unread_good[OF u])
  let ?e = "int (gpos (file_in p) + ?M)"
  have "indexFrames (of_nat ?M) p = indexFrames_loop ?e p"
    using g ui by (simp add: indexFrames_def tellg_good Let_def)
  also have "\<dots> = indexFrames_loop ?e
     (p\<lparr>frameOffsets := frameOffsets p @ map (\<lambda>e. of_nat (fst e)) (movi_index (gpos (file_in p)) cs),
       frameSizes := frameSizes p @ map (\<lambda>e. of_nat (snd e)) (movi_index (gpos (file_in p)) cs),
       file_in := skip ?M (file_in p)\<rparr>)"
    by (rule indexFrames_loop_chunks[OF u ok]) simp
  also have "\<dots> = p\<lparr>frameOffsets := frameOffsets p @ map (\<lambda>e. of_nat (fst e)) (movi_index (gpos (file_in p)) cs),
       frameSizes := frameSizes p @ map (\<lambda>e. of_nat (snd e)) (movi_index (gpos (file_in p)) cs),
       file_in := skip ?M (file_in p)\<rparr>"
    using g by (intro indexFrames_loop_done) simp_all
  finally show ?thesis unfolding sz .
qed



lemma last_video_snoc:
  "last_video (ss @ [s]) = (if is_video_stream s then Some s else last_video ss)"
  by (simp add: last_video_def)

lemma after_stream_format:
  "bitmapHeader (after_stream s p) = (if is_video_stream s then take 40 (snd s) else bitmapHeader p)"
  "palette (after_stream s p) =
     (if is_video_stream s \<and> 40 < length (snd s) \<and> BitmapInfoHeader_bitCount (take 40 (snd s)) = 8
      then quads_of (drop 40 (snd s)) else palette p)"
  by (simp_all add: after_stream_def)

lemma fold_after_stream_bitmapHeader:
  "last_video ss = Some v \<Longrightarrow> bitmapHeader (fold after_stream ss p) = take 40 (snd v)"
proof (induction ss rule: rev_induct)
  case Nil
  then show ?case by (simp add: last_video_def)
next
  case (snoc s ss)
  then show ?case
    by (cases "is_video_stream s") (simp_all add: last_video_snoc after_stream_format)
qed

lemma fold_after_stream_palette:
  "last_video ss = Some v \<Longrightarrow> 40 < length (snd v)
   \<Longrightarrow> BitmapInfoHeader_bitCount (take 40 (snd v)) = 8
   \<Longrightarrow> palette (fold after_stream ss p) = quads_of (drop 40 (snd v))"
proof (induction ss rule: rev_induct)
  case Nil
  then show ?case by (simp add: last_video_def)
next
  case (snoc s ss)
  then show ?case
    by (cases "is_video_stream s") (simp_all add: last_video_snoc after_stream_format)
qed

lemma length_movi_index: "length (movi_index pos cs) = length (filter is_video_frame cs)"
  by (induction cs arbitrary: pos) simp_all

lemma headers_state_fields:
  "mainHeader (headers_state u bytes mh ss) = mh"
  "frameOffsets (headers_state u bytes mh ss) = []"
  "frameSizes (headers_state u bytes mh ss) = []"
  "gpos (file_in (headers_state u bytes mh ss)) = 24 + length (hdrl mh ss)"
  "last_video ss = Some v \<Longrightarrow> bitmapHeader (headers_state u bytes mh ss) = take 40 (snd v)"
  "last_video ss = Some v \<Longrightarrow> 40 < length (snd v)
     \<Longrightarrow> BitmapInfoHeader_bitCount (take 40 (snd v)) = 8
     \<Longrightarrow> palette (headers_state u bytes mh ss) = quads_of (drop 40 (snd v))"
  by (simp_all add: headers_state_def AVIPlayer_new_def fold_after_stream_bitmapHeader
      fold_after_stream_palette)

lemma loadAVI_complete:
  assumes ok: "headers_ok mh ss" "chunks_ok cs" "length (movi_chunks cs) < 2 ^ 32 - 4"
    and bytes: "bytes = avi_file mh ss cs rest"
  shows "loadAVI u (Some bytes) (AVIPlayer_new u) =
     (if filter is_video_frame cs = [] then Inl ParseFailed
      else loadAVI_metadata (indexed_state u bytes mh ss cs))"
proof -
  let ?msz = "of_nat (4 + length (movi_chunks cs)) :: 32 word"
  have b: "bytes = riff_file (of_nat (4 + length (hdrl mh ss @ list_chunk ''movi'' (movi_chunks cs) @ rest)))
      (hdrl mh ss @ list_header ?msz ''movi'' @ movi_chunks cs @ rest)"
    by (simp add: bytes avi_file_def Let_def list_chunk_def del: of_nat_add)
  note h = loadAVI_headers[OF ok(1) b, of u]
  have ix: "indexFrames (?msz - 4) (headers_state u bytes mh ss) = indexed_state u bytes mh ss cs"
    using indexFrames_complete[OF h(2) ok(2,3)]
    by (simp add: indexed_state_def headers_state_fields del: of_nat_add)
  have e: "(frameOffsets (indexed_state u bytes mh ss cs) = []) = (filter is_video_frame cs = [])"
    using length_movi_index[of "24 + length (hdrl mh ss)" cs]
    by (simp add: indexed_state_def) (metis length_0_conv)
  show ?thesis
    unfolding h(1) ix e ..
qed

lemma indexed_state_fields:
  "mainHeader (indexed_state u bytes mh ss cs) = mh"
  "length (frameOffsets (indexed_state u bytes mh ss cs)) = length (filter is_video_frame cs)"
  "length (frameSizes (indexed_state u bytes mh ss cs)) = length (filter is_video_frame cs)"
  "bitmapHeader (indexed_state u bytes mh ss cs) = bitmapHeader (headers_state u bytes mh ss)"
  "palette (indexed_state u bytes mh ss cs) = palette (headers_state u bytes mh ss)"
  by (simp_all add: indexed_state_def headers_state_fields length_movi_index)


section \<open>Lemmas: loading well-formed and cut files\<close>

lemma loadAVI_wellformed:
  assumes "headers_ok mh ss" "chunks_ok cs" "length (movi_chunks cs) < 2 ^ 32 - 4"
    and "last_video ss = Some v"
    and "BitmapInfoHeader_compression (take 40 (snd v)) = 0"
    and "BitmapInfoHeader_bitCount (take 40 (snd v)) \<in> {8, 16, 24, 32}"
    and "filter is_video_frame cs \<noteq> []"
  shows "\<exists>p. loadAVI u (Some (avi_file mh ss cs rest)) (AVIPlayer_new u) = Inr p
      \<and> mainHeader p = mh
      \<and> totalFrames p = AVIMainHeader_totalFrames mh
      \<and> length (frameOffsets p) = length (filter is_video_frame cs)
      \<and> length (frameSizes p) = length (filter is_video_frame cs)
      \<and> bitsPerPixel p = ucast (BitmapInfoHeader_bitCount (take 40 (snd v)))
      \<and> isTopDown p = (sint (BitmapInfoHeader_height (take 40 (snd v))) < 0)
      \<and> (40 < length (snd v) \<and> BitmapInfoHeader_bitCount (take 40 (snd v)) = 8
           \<longrightarrow> palette p = quads_of (drop 40 (snd v)))"
proof -
  let ?bytes = "avi_file mh ss cs rest"
  let ?q = "indexed_state u ?bytes mh ss cs"
  have l: "loadAVI u (Some ?bytes) (AVIPlayer_new u) = loadAVI_metadata ?q"
    using loadAVI_complete[OF assms(1-3) refl, where rest = rest and u = u] assms(7) by simp
  have bh: "bitmapHeader ?q = take 40 (snd v)"
    using assms(4) by (simp add: indexed_state_fields headers_state_fields)
  obtain p where p: "loadAVI_metadata ?q = Inr p"
    using loadAVI_metadata_succeeds[of ?q] assms(5,6) bh by auto
  note a = loadAVI_metadata_Inr[OF p]
  have pal: "palette p = quads_of (drop 40 (snd v))"
    if "40 < length (snd v)" "BitmapInfoHeader_bitCount (take 40 (snd v)) = 8"
    using a(10) headers_state_fields(6)[OF assms(4) that] by (simp add: indexed_state_fields)
  show ?thesis
    using l p a(3) a(4) a(6) a(9) a(11) a(12) bh pal by (auto simp: indexed_state_fields)
qed


subsection \<open>The sample files are within the bounds\<close>

lemma strh_image_fields:
  "length (strh_image ty) = length ty + 52" "take 4 (strh_image ''vids'') = fourcc ''vids''"
  by (simp_all add: strh_image_def)

lemma take_bmih_image [simp]: "take 40 (bmih_image h bits c) = bmih_image h bits c"
  by (simp add: bmih_image_fields)

lemma one_stream_headers_ok:
  "headers_ok (avih_image a b c d) [(strh_image ''vids'', bmih_image h bits 0)]"
  by (simp add: headers_ok_def streams_ok_def avih_image_fields strh_image_fields
      bmih_image_fields length_hdrl length_strl)

lemma one_stream_last_video:
  "last_video [(strh_image ''vids'', bmih_image h bits 0)] = Some (strh_image ''vids'', bmih_image h bits 0)"
  by (simp add: last_video_def is_video_stream_def strh_image_fields)

lemma lying_movi_ok:
  "chunks_ok lying_movi" "length (movi_chunks lying_movi) < 2 ^ 32 - 4"
  "filter is_video_frame lying_movi = [(fourcc ''00db'', [1, 2, 3, 4, 5, 6]), (fourcc ''00dc'', [6, 5, 4, 3, 2, 1])]"
  by (simp_all add: lying_movi_def chunks_ok_def movi_chunks_def length_chunk is_video_frame_def
      fourcc_def)

lemma lying_file_loads:
  "\<exists>p. loadAVI blank (Some lying_file) (AVIPlayer_new blank) = Inr p
      \<and> mainHeader p = avih_image 40000 5 2 1 \<and> totalFrames p = 5 \<and> length (frameOffsets p) = 2"
  using loadAVI_wellformed[OF one_stream_headers_ok[of 40000 5 2 1 1 24] lying_movi_ok(1,2)
      one_stream_last_video[of 1 24], where rest = "[]" and u = blank]
  by (auto simp: lying_file_def bmih_image_fields avih_image_fields lying_movi_ok(3))







section \<open>Claims about frame conversion\<close>


text \<open>
  C10. For each of the four pixel formats, the conversion reads only the first
  height * width * bytesPerPixel bytes of the frame buffer: two buffers of at least that
  length (each shorter than \<open>2^32\<close> bytes, as a buffer sized by a \<^verbatim>\<open>uint32_t\<close> is) that
  agree on this prefix are converted to the same output, whatever their lengths and
  trailing bytes.
\<close>

theorem frame_prefix_determines_output:
  assumes bits: "bitsPerPixel p \<in> {8, 16, 24, 32}"
    and bpp: "bytesPerPixel p = (bitsPerPixel p + 7) div 8"
    and n: "n = unat (frameHeight p) * unat (frameWidth p) * unat (bytesPerPixel p)"
    and la: "n \<le> length a" and lb: "n \<le> length b"
    and "length a < 2 ^ 32" "length b < 2 ^ 32"
    and eq: "take n a = take n b"
  shows "convertAndCopyFrame p a pitch pixels = convertAndCopyFrame p b pitch pixels"
proof -
  have n32: "n < 2 ^ 32" using la \<open>length a < 2 ^ 32\<close> by linarith
  consider "bitsPerPixel p = 8" | "bitsPerPixel p = 16" | "bitsPerPixel p = 24" | "bitsPerPixel p = 32"
    using bits by auto
  then show ?thesis
  proof cases
    case 1
    then have "bytesPerPixel p = 1" using bpp by (simp only: bytesPerPixel_values)
    then have "n = unat (frameHeight p) * unat (frameWidth p) * 1" using n by simp
    from convert8_prefix[OF eq la lb n32 this] 1 show ?thesis
      by (simp add: convertAndCopyFrame_def)
  next
    case 2
    then have "bytesPerPixel p = 2" using bpp by (simp only: bytesPerPixel_values)
    then have "n = unat (frameHeight p) * unat (frameWidth p) * 2" using n by simp
    from convert16_prefix[OF eq la lb n32 this] 2 show ?thesis
      by (simp add: convertAndCopyFrame_def)
  next
    case 3
    then have "bytesPerPixel p = 3" using bpp by (simp only: bytesPerPixel_values)
    then have "n = unat (frameHeight p) * unat (frameWidth p) * 3" using n by simp
    from convert24_prefix[OF eq la lb n32 this] 3 show ?thesis
      by (simp add: convertAndCopyFrame_def)
  next
    case 4
    then have "bytesPerPixel p = 4" using bpp by (simp only: bytesPerPixel_values)
    then have "n = unat (frameHeight p) * unat (frameWidth p) * 4" using n by simp
    from convert32_prefix[OF eq la lb n32 this] 4 show ?thesis
      by (simp add: convertAndCopyFrame_def)
  qed
qed

theorem frame_prefix_determines_output_witness:
  "take 3 [1, 2, 3 :: byte] = take 3 [1, 2, 3, 9, 9]
   \<and> convertAndCopyFrame tiny_player [1, 2, 3] 3 [0, 0, 0]
     = convertAndCopyFrame tiny_player [1, 2, 3, 9, 9] 3 [0, 0, 0]"
proof -
  have "convertAndCopyFrame tiny_player [1, 2, 3] 3 [0, 0, 0]
      = convertAndCopyFrame tiny_player [1, 2, 3, 9, 9] 3 [0, 0, 0]"
    by (rule frame_prefix_determines_output[where n = 3])
      (simp_all add: tiny_player_def AVIPlayer_new_def)
  then show ?thesis by simp
qed





text \<open>
  C8. Indexed8 conversion never fails and looks every source byte up in the palette: when
  the frame buffer holds at least height * width bytes and the destination at least
  height * pitch bytes with \<open>3 * width \<le> pitch\<close>, the conversion returns a buffer in
  which the pixel at row \<open>y\<close>, column \<open>x\<close> is the (red, green, blue) of the palette entry
  selected by the source byte if that byte is below the palette length, and \<open>(0, 0, 0)\<close>
  otherwise. Nothing is assumed about the byte values or the palette length.
\<close>

theorem indexed8_lookup_is_total:
  assumes "unat (frameHeight p) * unat (frameWidth p) \<le> length frameData"
    and "length frameData < 2 ^ 32"
    and "3 * unat (frameWidth p) \<le> pitch"
    and "unat (frameHeight p) * pitch \<le> length pixels"
    and "length pixels < 2 ^ 32"
  shows "\<exists>out. convert8BitToRGB24 p frameData pitch pixels = Some out
      \<and> length out = length pixels
      \<and> (\<forall>y<unat (frameHeight p). \<forall>x<unat (frameWidth p).
            [out ! (y * pitch + 3 * x), out ! (y * pitch + 3 * x + 1), out ! (y * pitch + 3 * x + 2)] =
            (let paletteIndex = unat (frameData ! (srcY_of p y * unat (frameWidth p) + x))
             in if paletteIndex < length (palette p)
                then [red (palette p ! paletteIndex), green (palette p ! paletteIndex),
                      blue (palette p ! paletteIndex)]
                else [0, 0, 0]))"
proof -
  from frame8[where sy = "srcY_of p" and pal = "palette p" and m = "unat (frameHeight p)",
      OF assms srcY_of_less le_refl]
  obtain out where o: "convert8BitToRGB24 p frameData pitch pixels = Some out"
    "length out = length pixels"
    "\<forall>y<unat (frameHeight p). \<forall>x<unat (frameWidth p). \<forall>k<3.
       out ! (y * pitch + 3 * x + k)
       = pal8 (palette p) (frameData ! (srcY_of p y * unat (frameWidth p) + x)) k"
    unfolding convert8_as_px8 by blast
  have "[out ! (y * pitch + 3 * x), out ! (y * pitch + 3 * x + 1), out ! (y * pitch + 3 * x + 2)] =
            (let paletteIndex = unat (frameData ! (srcY_of p y * unat (frameWidth p) + x))
             in if paletteIndex < length (palette p)
                then [red (palette p ! paletteIndex), green (palette p ! paletteIndex),
                      blue (palette p ! paletteIndex)]
                else [0, 0, 0])"
    if "y < unat (frameHeight p)" "x < unat (frameWidth p)" for y x
    using o(3)[rule_format, OF that, of 0] o(3)[rule_format, OF that, of 1]
      o(3)[rule_format, OF that, of 2]
    by (simp add: pal8_def Let_def)
  with o(1,2) show ?thesis by blast
qed

theorem indexed8_lookup_is_total_witness:
  "\<exists>out. convert8BitToRGB24 palette_player [2, 5] 6 [7, 7, 7, 7, 7, 7] = Some out
      \<and> [out ! 0, out ! 1, out ! 2] = [10, 20, 30]
      \<and> [out ! 3, out ! 4, out ! 5] = [0, 0, 0]"
proof -
  have w: "unat (frameWidth palette_player) = 2" and h: "unat (frameHeight palette_player) = 1"
    and t: "isTopDown palette_player = False"
    and pal: "palette palette_player = [\<lparr>blue = 1, green = 2, red = 3, reserved = 0\<rparr>,
                  \<lparr>blue = 4, green = 5, red = 6, reserved = 0\<rparr>,
                  \<lparr>blue = 30, green = 20, red = 10, reserved = 0\<rparr>]"
    by (simp_all add: palette_player_def AVIPlayer_new_def)
  from indexed8_lookup_is_total[of palette_player "[2, 5]" 6 "[7, 7, 7, 7, 7, 7]"]
  obtain out where o: "convert8BitToRGB24 palette_player [2, 5] 6 [7, 7, 7, 7, 7, 7] = Some out"
    "\<forall>y<1. \<forall>x<2.
       [out ! (y * 6 + 3 * x), out ! (y * 6 + 3 * x + 1), out ! (y * 6 + 3 * x + 2)] =
       (let paletteIndex = unat ([2, 5 :: byte] ! (srcY_of palette_player y * 2 + x))
        in if paletteIndex < length (palette palette_player)
           then [red (palette palette_player ! paletteIndex),
                 green (palette palette_player ! paletteIndex),
                 blue (palette palette_player ! paletteIndex)]
           else [0, 0, 0])"
    unfolding w h by auto
  have "out ! 0 = 10 \<and> out ! Suc 0 = 20 \<and> out ! Suc (Suc 0) = 30"
    using o(2)[rule_format, of 0 0] by (simp add: srcY_of_def h t pal)
  then have "[out ! 0, out ! 1, out ! 2] = [10, 20, 30]"
    by (simp add: numeral_2_eq_2)
  moreover have "[out ! 3, out ! 4, out ! 5] = [0, 0, 0]"
    using o(2)[rule_format, of 0 1] by (simp add: srcY_of_def h t pal)
  ultimately show ?thesis using o(1) by blast
qed

section \<open>Claims about loading\<close>










text \<open>
  C9. For every loaded player, the frames-per-second value is the floor of 1,000,000
  divided by the frame duration in microseconds held in its main header when that
  duration is positive, and 30 when it is zero.
\<close>

theorem fps_from_frame_duration:
  assumes "loadAVI u opened p0 = Inr p"
  shows "unat (fps p) =
     (if 0 < unat (AVIMainHeader_microSecPerFrame (mainHeader p))
      then 1000000 div unat (AVIMainHeader_microSecPerFrame (mainHeader p))
      else 30)"
proof -
  obtain q where q: "loadAVI_metadata q = Inr p"
    using assms
    by (auto simp: loadAVI_def Let_def split: option.splits prod.splits if_splits)
  note a = loadAVI_metadata_Inr[OF q]
  show ?thesis
    using a(1) by (simp add: a(9) unat_div word_greater_zero_iff unat_gt_0)
qed

theorem fps_from_frame_duration_witness:
  "\<not> isl (loadAVI blank (Some lying_file) (AVIPlayer_new blank))
   \<and> unat (fps (projr (loadAVI blank (Some lying_file) (AVIPlayer_new blank)))) = 25"
proof -
  obtain p where p: "loadAVI blank (Some lying_file) (AVIPlayer_new blank) = Inr p"
    "mainHeader p = avih_image 40000 5 2 1"
    using lying_file_loads by blast
  show ?thesis
    using fps_from_frame_duration[OF p(1)] p by (simp add: avih_image_fields)
qed




end
